theory Spec2Isabelle
  imports Main
begin

section \<open>Data model of the diff parser\<close>

text \<open>
  The records follow the object literals built by \<open>parseDiff\<close> in
  \<^verbatim>\<open>utils/diffParser.js\<close>. A JavaScript number that holds a line number or a counter
  is an integer-valued double, modelled as an integer: \<open>parseInt\<close> and the additions of the
  parser round as the doubles do (\<open>toDouble\<close> below), and the functions that read a parsed
  diff take their numbers as exact integers. The integer \<open>2^1024\<close>, the first beyond the
  largest double, stands for \<open>Infinity\<close>, which the code reads from a very long digit
  run; no statement below speaks of a number beyond \<open>2^53\<close> except through \<open>toDouble\<close>
  or by evaluation. Strings are sequences of
  8-bit characters, so the text is taken in the Latin-1 range; a line obtained by splitting
  such a text at line feeds, carriage returns removed, holds no line terminator, and
  the dot of a regular expression matches each of its characters.
  A property that the consumers test for absence (\<^verbatim>\<open>change.hunks || []\<close>,
  \<^verbatim>\<open>hunk.lines || []\<close>, \<^verbatim>\<open>newLineNumber === null\<close>) is an option.
  The line type is one of the three strings that \<open>getLineType\<close> returns. Where two
  object shapes of the source share a property name, the later record carries a suffix
  (\<open>content_e\<close>, \<open>filePath_b\<close>, \<open>type_c\<close>), as does \<open>context_h\<close>.
\<close>

datatype lineKind = Context | Added | Removed

record line =
  content :: string
  lineType :: lineKind
  oldLineNumber :: "int option"
  newLineNumber :: "int option"

record hunk =
  oldStart :: int
  oldLength :: int
  newStart :: int
  newLength :: int
  context_h :: string
  lines :: "line list option"

record fileChange =
  filePath :: string
  oldFilePath :: string
  isDeleted :: bool
  isNew :: bool
  isRenamed :: bool
  isBinary :: bool
  hunks :: "hunk list option"

datatype error = TypeError

text \<open>\<^verbatim>\<open>x || []\<close> on a list-valued property.\<close>

definition orEmpty :: "'a list option \<Rightarrow> 'a list" where
  "orEmpty x = (case x of None \<Rightarrow> [] | Some xs \<Rightarrow> xs)"

section \<open>String primitives\<close>

fun startsWith :: "string \<Rightarrow> string \<Rightarrow> bool" where
  "startsWith s [] = True"
| "startsWith [] (p # ps) = False"
| "startsWith (c # cs) (p # ps) = (c = p \<and> startsWith cs ps)"

definition endsWith :: "string \<Rightarrow> string \<Rightarrow> bool" where
  "endsWith s p = startsWith (rev s) (rev p)"

text \<open>The white space that \<^verbatim>\<open>String.prototype.trim\<close> removes, within Latin-1:
  TAB, LF, VT, FF, CR, SPACE and NBSP.\<close>

definition isWhitespace :: "char \<Rightarrow> bool" where
  "isWhitespace c = (c = CHR 0x09 \<or> c = CHR 0x0A \<or> c = CHR 0x0B \<or> c = CHR 0x0C
     \<or> c = CHR 0x0D \<or> c = CHR 0x20 \<or> c = CHR 0xA0)"

definition trim :: "string \<Rightarrow> string" where
  "trim s = rev (dropWhile isWhitespace (rev (dropWhile isWhitespace s)))"

text \<open>\<^verbatim>\<open>\d\<close> is \<^verbatim>\<open>[0-9]\<close>.\<close>

definition isDigit :: "char \<Rightarrow> bool" where
  "isDigit c = (c \<in> set ''0123456789'')"

definition digitVal :: "char \<Rightarrow> int" where
  "digitVal c = int (of_char c) - 48"

text \<open>The number of binary digits of a positive integer.\<close>

function bitLength :: "int \<Rightarrow> nat" where
  "bitLength n = (if n \<le> 0 then 0 else Suc (bitLength (n div 2)))"
  by pat_completeness auto
termination
  by (relation "measure nat") auto

text \<open>The double nearest to an integer: integers up to \<open>2^53\<close> are doubles; a larger one
  keeps its 53 leading binary digits, rounded to nearest, a tie to the even neighbour;
  what rounds to \<open>2^1024\<close> or more is \<open>Infinity\<close>.\<close>

definition infinity :: int where
  "infinity = 2 ^ 1024"

definition roundInt :: "int \<Rightarrow> int" where
  "roundInt n =
     (if n \<le> 2 ^ 53 then n
      else
        (let e = bitLength n - 53; q = n div 2 ^ e; r = n mod 2 ^ e; half = 2 ^ (e - 1);
             d = (if r > half \<or> (r = half \<and> odd q) then (q + 1) * 2 ^ e else q * 2 ^ e) in
         if d \<ge> infinity then infinity else d))"

definition toDouble :: "int \<Rightarrow> int" where
  "toDouble x = (if x < 0 then - roundInt (- x) else roundInt x)"

text \<open>\<^verbatim>\<open>parseInt\<close> on a string of decimal digits: the decimal value, as a double.\<close>

definition parseInt :: "string \<Rightarrow> int" where
  "parseInt ds = toDouble (foldl (\<lambda>n c. 10 * n + digitVal c) 0 ds)"

text \<open>\<^verbatim>\<open>text.split('\n')\<close>: the empty text gives one empty line.\<close>

fun splitLines :: "string \<Rightarrow> string list" where
  "splitLines [] = [ [] ]"
| "splitLines (c # cs) =
     (if c = CHR 0x0A then [] # splitLines cs
      else (case splitLines cs of [] \<Rightarrow> [ [c] ] | l # ls \<Rightarrow> (c # l) # ls))"

text \<open>\<^verbatim>\<open>text.replace(/\r/g, '')\<close>.\<close>

definition stripCR :: "string \<Rightarrow> string" where
  "stripCR s = filter (\<lambda>c. c \<noteq> CHR 0x0D) s"

section \<open>The regular expressions of the parser\<close>

text \<open>The first occurrence of \<open>sep\<close> in a string: what a lazy group followed by the
  literal \<open>sep\<close> and an end-anchored rest matches.\<close>

fun splitFirst :: "string \<Rightarrow> string \<Rightarrow> (string \<times> string) option" where
  "splitFirst sep [] = (if sep = [] then Some ([], []) else None)"
| "splitFirst sep (c # cs) =
     (if startsWith (c # cs) sep then Some ([], drop (length sep) (c # cs))
      else map_option (\<lambda>(a, b). (c # a, b)) (splitFirst sep cs))"

text \<open>\<^verbatim>\<open>/^diff --git a\/(.*?) b\/(.*?)$/\<close>, giving the two groups.\<close>

definition matchDiffGit :: "string \<Rightarrow> (string \<times> string) option" where
  "matchDiffGit l =
     (if startsWith l ''diff --git a/'' then splitFirst '' b/'' (drop 13 l) else None)"

text \<open>\<^verbatim>\<open>/^Binary files? .* differ$/\<close>: after \<^verbatim>\<open>Binary file\<close> or \<^verbatim>\<open>Binary files\<close>
  come a space, any text, and the text \<^verbatim>\<open> differ\<close> at the end.\<close>

definition binaryTail :: "string \<Rightarrow> bool" where
  "binaryTail r = (startsWith r '' '' \<and> endsWith (drop 1 r) '' differ'')"

definition matchBinary :: "string \<Rightarrow> bool" where
  "matchBinary l =
     ((startsWith l ''Binary files'' \<and> binaryTail (drop 12 l))
      \<or> (startsWith l ''Binary file'' \<and> binaryTail (drop 11 l)))"

text \<open>\<^verbatim>\<open>/^--- (?:a\/)?(.*)$/\<close> and \<^verbatim>\<open>/^\+\+\+ (?:b\/)?(.*)$/\<close>, giving the group.\<close>

definition matchPathLine :: "string \<Rightarrow> string \<Rightarrow> string \<Rightarrow> string option" where
  "matchPathLine marker pre l =
     (if startsWith l marker then
        (let r = drop (length marker) l in
         Some (if startsWith r pre then drop (length pre) r else r))
      else None)"

definition matchMinus :: "string \<Rightarrow> string option" where
  "matchMinus l = matchPathLine ''--- '' ''a/'' l"

definition matchPlus :: "string \<Rightarrow> string option" where
  "matchPlus l = matchPathLine ''+++ '' ''b/'' l"

text \<open>\<^verbatim>\<open>(\d+)(?:,(\d+))?\<close> at the head of a string: the digits, the optional second
  group, and the rest. The digit runs are maximal: a shorter run would be followed by a
  digit, which neither a comma nor the literal after the range matches.\<close>

definition matchRange :: "string \<Rightarrow> (string \<times> string option \<times> string) option" where
  "matchRange s =
     (let d = takeWhile isDigit s; r = dropWhile isDigit s in
      if d = [] then None
      else if startsWith r '','' \<and> takeWhile isDigit (drop 1 r) \<noteq> []
        then Some (d, Some (takeWhile isDigit (drop 1 r)), dropWhile isDigit (drop 1 r))
        else Some (d, None, r))"

text \<open>\<^verbatim>\<open>/^@@ -(\d+)(?:,(\d+))? \+(\d+)(?:,(\d+))? @@(.*)$/\<close>, giving the five groups.\<close>

definition matchHunkHeader ::
  "string \<Rightarrow> (string \<times> string option \<times> string \<times> string option \<times> string) option" where
  "matchHunkHeader l =
     (if startsWith l ''@@ -'' then
        (case matchRange (drop 4 l) of
           None \<Rightarrow> None
         | Some (m1, m2, r1) \<Rightarrow>
             (if startsWith r1 '' +'' then
                (case matchRange (drop 2 r1) of
                   None \<Rightarrow> None
                 | Some (m3, m4, r2) \<Rightarrow>
                     (if startsWith r2 '' @@'' then Some (m1, m2, m3, m4, drop 3 r2)
                      else None))
              else None))
      else None)"

section \<open>parseDiff\<close>

text \<open>
  The parser keeps \<open>changes\<close> and two references into it: \<open>currentFile\<close> and
  \<open>currentHunk\<close>. The objects they refer to are mutated in place, and the hunk may
  belong to a file that is no longer the current one. The state holds the array and the
  references as indices (a hunk as file index and hunk index); reading through a reference
  that names no object is a \<open>TypeError\<close>, as is a push on an absent property.
\<close>

record pstate =
  changes :: "fileChange list"
  currentFile :: "nat option"
  currentHunk :: "(nat \<times> nat) option"

definition initState :: pstate where
  "initState = \<lparr>changes = [], currentFile = None, currentHunk = None\<rparr>"

definition getFile :: "pstate \<Rightarrow> nat \<Rightarrow> error + fileChange" where
  "getFile s i = (if i < length (changes s) then Inr (changes s ! i) else Inl TypeError)"

definition setFile :: "pstate \<Rightarrow> nat \<Rightarrow> fileChange \<Rightarrow> pstate" where
  "setFile s i f = s\<lparr>changes := (changes s)[i := f]\<rparr>"

text \<open>\<^verbatim>\<open>if (currentFile) currentFile.p = v\<close>.\<close>

definition withCurrentFile :: "pstate \<Rightarrow> (fileChange \<Rightarrow> fileChange) \<Rightarrow> error + pstate" where
  "withCurrentFile s g =
     (case currentFile s of
        None \<Rightarrow> Inr s
      | Some i \<Rightarrow> (case getFile s i of Inl e \<Rightarrow> Inl e | Inr f \<Rightarrow> Inr (setFile s i (g f))))"

definition newFile :: "string \<Rightarrow> string \<Rightarrow> fileChange" where
  "newFile m1 m2 = \<lparr>filePath = trim m2, oldFilePath = trim m1, isDeleted = False,
     isNew = False, isRenamed = False, isBinary = False, hunks = Some []\<rparr>"

text \<open>\<^verbatim>\<open>line.startsWith('@@') && currentFile && !currentFile.isBinary\<close>.\<close>

definition hunkHeaderGuard :: "pstate \<Rightarrow> string \<Rightarrow> error + bool" where
  "hunkHeaderGuard s l =
     (if startsWith l ''@@'' then
        (case currentFile s of
           None \<Rightarrow> Inr False
         | Some i \<Rightarrow> (case getFile s i of Inl e \<Rightarrow> Inl e | Inr f \<Rightarrow> Inr (\<not> isBinary f)))
      else Inr False)"

definition newHunk :: "string \<Rightarrow> string option \<Rightarrow> string \<Rightarrow> string option \<Rightarrow> string \<Rightarrow> hunk" where
  "newHunk m1 m2 m3 m4 m5 =
     \<lparr>oldStart = parseInt m1,
      oldLength = parseInt (case m2 of None \<Rightarrow> ''1'' | Some d \<Rightarrow> if d = [] then ''1'' else d),
      newStart = parseInt m3,
      newLength = parseInt (case m4 of None \<Rightarrow> ''1'' | Some d \<Rightarrow> if d = [] then ''1'' else d),
      context_h = (if m5 = [] then [] else trim m5),
      lines = Some []\<rparr>"

text \<open>The body of the hunk-header branch: on a match the new hunk is pushed on the
  current file's hunks and becomes the current hunk.\<close>

definition openHunk :: "pstate \<Rightarrow> string \<Rightarrow> error + pstate" where
  "openHunk s l =
     (case matchHunkHeader l of
        None \<Rightarrow> Inr s
      | Some (m1, m2, m3, m4, m5) \<Rightarrow>
          (case currentFile s of
             None \<Rightarrow> Inl TypeError
           | Some i \<Rightarrow>
               (case getFile s i of
                  Inl e \<Rightarrow> Inl e
                | Inr f \<Rightarrow>
                    (case hunks f of
                       None \<Rightarrow> Inl TypeError
                     | Some hs \<Rightarrow>
                         Inr ((setFile s i (f\<lparr>hunks := Some (hs @ [newHunk m1 m2 m3 m4 m5])\<rparr>))
                               \<lparr>currentHunk := Some (i, length hs)\<rparr>)))))"

definition getLineType :: "string \<Rightarrow> lineKind" where
  "getLineType l =
     (if startsWith l ''+'' then Added else if startsWith l ''-'' then Removed else Context)"

text \<open>The counting loop over the lines already in the hunk. An array holds fewer than
  \<open>2^32\<close> elements, so the two counters are exact.\<close>

fun countLines :: "line list \<Rightarrow> int \<times> int \<Rightarrow> int \<times> int" where
  "countLines [] (oldLineCount, newLineCount) = (oldLineCount, newLineCount)"
| "countLines (hunkLine # rest) (oldLineCount, newLineCount) =
     countLines rest
       (if lineType hunkLine = Context \<or> lineType hunkLine = Removed
          then oldLineCount + 1 else oldLineCount,
        if lineType hunkLine = Context \<or> lineType hunkLine = Added
          then newLineCount + 1 else newLineCount)"

definition makeLine :: "hunk \<Rightarrow> line list \<Rightarrow> string \<Rightarrow> line" where
  "makeLine h hunkLines l =
     (let lt = getLineType l;
          (oldLineCount, newLineCount) = countLines hunkLines (0, 0)
      in \<lparr>content = drop 1 l,
          lineType = lt,
          oldLineNumber =
            (if lt = Context \<or> lt = Removed then Some (toDouble (oldStart h + oldLineCount))
             else None),
          newLineNumber =
            (if lt = Context \<or> lt = Added then Some (toDouble (newStart h + newLineCount))
             else None)\<rparr>)"

text \<open>The body of the hunk-content branch: the line is pushed on the current hunk.\<close>

definition appendLine :: "pstate \<Rightarrow> string \<Rightarrow> error + pstate" where
  "appendLine s l =
     (case currentHunk s of
        None \<Rightarrow> Inl TypeError
      | Some (fi, hi) \<Rightarrow>
          (case getFile s fi of
             Inl e \<Rightarrow> Inl e
           | Inr f \<Rightarrow>
               (case hunks f of
                  None \<Rightarrow> Inl TypeError
                | Some hs \<Rightarrow>
                    (if hi < length hs then
                       (case lines (hs ! hi) of
                          None \<Rightarrow> Inl TypeError
                        | Some hunkLines \<Rightarrow>
                            Inr (setFile s fi
                              (f\<lparr>hunks := Some (hs[hi := (hs ! hi)
                                   \<lparr>lines := Some (hunkLines @ [makeLine (hs ! hi) hunkLines l])\<rparr>])\<rparr>)))
                     else Inl TypeError))))"

text \<open>One turn of the \<^verbatim>\<open>while\<close> loop: the \<^verbatim>\<open>if / else if\<close> chain on one line.\<close>

definition step :: "pstate \<Rightarrow> string \<Rightarrow> error + pstate" where
  "step s l =
     (if startsWith l ''diff --git'' then
        (case matchDiffGit l of
           None \<Rightarrow> Inr s
         | Some (m1, m2) \<Rightarrow>
             Inr (s\<lparr>changes := changes s @ [newFile m1 m2],
                    currentFile := Some (length (changes s))\<rparr>))
      else if startsWith l ''new file mode'' then
        withCurrentFile s (\<lambda>f. f\<lparr>isNew := True\<rparr>)
      else if startsWith l ''deleted file mode'' then
        withCurrentFile s (\<lambda>f. f\<lparr>isDeleted := True\<rparr>)
      else if startsWith l ''similarity index'' \<or> startsWith l ''rename from''
              \<or> startsWith l ''rename to'' then
        withCurrentFile s (\<lambda>f. f\<lparr>isRenamed := True\<rparr>)
      else if matchBinary l then
        withCurrentFile s (\<lambda>f. f\<lparr>isBinary := True\<rparr>)
      else if startsWith l ''---'' then
        (case matchMinus l of
           None \<Rightarrow> Inr s
         | Some m \<Rightarrow>
             (if m \<noteq> ''/dev/null'' then withCurrentFile s (\<lambda>f. f\<lparr>oldFilePath := trim m\<rparr>)
              else Inr s))
      else if startsWith l ''+++'' then
        (case matchPlus l of
           None \<Rightarrow> Inr s
         | Some m \<Rightarrow>
             (if m \<noteq> ''/dev/null'' then withCurrentFile s (\<lambda>f. f\<lparr>filePath := trim m\<rparr>)
              else Inr s))
      else
        (case hunkHeaderGuard s l of
           Inl e \<Rightarrow> Inl e
         | Inr True \<Rightarrow> openHunk s l
         | Inr False \<Rightarrow>
             (if currentHunk s \<noteq> None
                 \<and> (startsWith l '' '' \<or> startsWith l ''+'' \<or> startsWith l ''-'')
              then appendLine s l
              else Inr s)))"

text \<open>The loop over the lines; an error leaves it, as the exception would.\<close>

fun run :: "pstate \<Rightarrow> string list \<Rightarrow> error + pstate" where
  "run s [] = Inr s"
| "run s (l # ls) = (case step s l of Inl e \<Rightarrow> Inl e | Inr s' \<Rightarrow> run s' ls)"

text \<open>The body of the \<^verbatim>\<open>try\<close> block, and \<open>parseDiff\<close> with its \<^verbatim>\<open>catch\<close>, which
  returns the empty list.\<close>

definition parseDiffTry :: "string \<Rightarrow> error + fileChange list" where
  "parseDiffTry diffText =
     (case run initState (splitLines (stripCR diffText)) of
        Inl e \<Rightarrow> Inl e
      | Inr s \<Rightarrow> Inr (changes s))"

definition parseDiff :: "string \<Rightarrow> fileChange list" where
  "parseDiff diffText = (case parseDiffTry diffText of Inl e \<Rightarrow> [] | Inr cs \<Rightarrow> cs)"

section \<open>analyzeChanges\<close>

record fileStat =
  filePath_s :: string
  added :: int
  removed :: int
  isNew_s :: bool
  isDeleted_s :: bool
  isBinary_s :: bool

record analysis =
  totalFiles :: int
  totalAdded :: int
  totalRemoved :: int
  fileStats :: "fileStat list"

text \<open>The innermost loop body, on the counters \<open>totalAdded\<close>, \<open>totalRemoved\<close>,
  \<open>fileAdded\<close> and \<open>fileRemoved\<close>, in this order.\<close>

definition countLine :: "int \<times> int \<times> int \<times> int \<Rightarrow> line \<Rightarrow> int \<times> int \<times> int \<times> int" where
  "countLine c ln =
     (case c of (tAdded, tRemoved, fileAdded, fileRemoved) \<Rightarrow>
        if lineType ln = Added then (tAdded + 1, tRemoved, fileAdded + 1, fileRemoved)
        else if lineType ln = Removed then (tAdded, tRemoved + 1, fileAdded, fileRemoved + 1)
        else c)"

definition countHunk :: "int \<times> int \<times> int \<times> int \<Rightarrow> hunk \<Rightarrow> int \<times> int \<times> int \<times> int" where
  "countHunk c h = foldl countLine c (orEmpty (lines h))"

text \<open>The body of the loop over the changes, on \<open>totalAdded\<close>, \<open>totalRemoved\<close> and
  \<open>fileStats\<close>.\<close>

definition analyzeChange ::
  "int \<times> int \<times> fileStat list \<Rightarrow> fileChange \<Rightarrow> int \<times> int \<times> fileStat list" where
  "analyzeChange acc change =
     (case acc of (tAdded, tRemoved, stats) \<Rightarrow>
        (case foldl countHunk (tAdded, tRemoved, 0, 0) (orEmpty (hunks change)) of
           (tAdded', tRemoved', fileAdded, fileRemoved) \<Rightarrow>
             (tAdded', tRemoved',
              stats @ [\<lparr>filePath_s =
                           (if filePath change = [] then ''unknown_file'' else filePath change),
                         added = fileAdded, removed = fileRemoved,
                         isNew_s = isNew change, isDeleted_s = isDeleted change,
                         isBinary_s = isBinary change\<rparr>])))"

definition analyzeChanges :: "fileChange list \<Rightarrow> analysis" where
  "analyzeChanges cs =
     (if cs = [] then \<lparr>totalFiles = 0, totalAdded = 0, totalRemoved = 0, fileStats = []\<rparr>
      else
        (case foldl analyzeChange (0, 0, []) cs of
           (ta, tr, stats) \<Rightarrow>
             \<lparr>totalFiles = int (length cs), totalAdded = ta, totalRemoved = tr,
              fileStats = stats\<rparr>))"

section \<open>extractChangedCodeWithContext\<close>

record codeEntry =
  content_e :: string
  lineNumber :: int
  isChange :: bool

record block =
  filePath_b :: string
  startLine :: "int option"
  endLine :: "int option"
  code :: "codeEntry list"
  hasChanges :: bool

text \<open>The variables of the loop over one hunk's lines, with the result list
  \<open>codeBlocks\<close>, which lives across hunks and files. The parameter \<open>contextLines\<close>,
  3 when the caller gives none, is an argument of every function here.\<close>

record xstate =
  inChangeBlock :: bool
  currentBlock :: block
  contextBuffer :: "(string \<times> int) list"
  codeBlocks :: "block list"

definition emptyBlock :: "string \<Rightarrow> block" where
  "emptyBlock fp =
     \<lparr>filePath_b = fp, startLine = None, endLine = None, code = [], hasChanges = False\<rparr>"

text \<open>\<^verbatim>\<open>s.replace(/\n$/, '')\<close>.\<close>

definition stripNewline :: "string \<Rightarrow> string" where
  "stripNewline s = (if s \<noteq> [] \<and> last s = CHR 0x0A then butlast s else s)"

text \<open>Starting a block on a change: the start line is set from the line's number, and
  the buffered context is moved in front.\<close>

definition startBlock :: "int \<Rightarrow> int \<Rightarrow> xstate \<Rightarrow> xstate" where
  "startBlock n contextLines st =
     st\<lparr>inChangeBlock := True,
        currentBlock := (currentBlock st)
          \<lparr>startLine := Some (max 1 (n - contextLines)),
           hasChanges := True,
           code := code (currentBlock st)
             @ map (\<lambda>(c, k). \<lparr>content_e = c, lineNumber = k, isChange = False\<rparr>)
                 (contextBuffer st)\<rparr>,
        contextBuffer := []\<rparr>"

text \<open>The line goes into the block, or into the buffer, which keeps at most
  \<open>contextLines\<close> entries.\<close>

definition addLine :: "string \<Rightarrow> lineKind \<Rightarrow> int \<Rightarrow> int \<Rightarrow> xstate \<Rightarrow> xstate" where
  "addLine lineContent lt n contextLines st =
     (if inChangeBlock st then
        st\<lparr>currentBlock := (currentBlock st)
          \<lparr>code := code (currentBlock st)
             @ [\<lparr>content_e = lineContent, lineNumber = n,
                 isChange = (lt = Added \<or> lt = Removed)\<rparr>],
           endLine := Some n\<rparr>\<rparr>
      else
        (let buf = contextBuffer st @ [(lineContent, n)] in
         st\<lparr>contextBuffer := (if int (length buf) > contextLines then tl buf else buf)\<rparr>))"

text \<open>The backward loop over the block's entries, given last entry first: it counts the
  unchanged entries and stops at a change; the count is returned when it reaches
  \<open>contextLines\<close>.\<close>

fun scanBack :: "codeEntry list \<Rightarrow> int \<Rightarrow> int \<Rightarrow> int option" where
  "scanBack [] contextCount contextLines = None"
| "scanBack (e # es) contextCount contextLines =
     (if \<not> isChange e then
        (if contextCount + 1 \<ge> contextLines then Some (contextCount + 1)
         else scanBack es (contextCount + 1) contextLines)
      else None)"

definition trimBlock :: "block \<Rightarrow> int \<Rightarrow> int \<Rightarrow> block" where
  "trimBlock b contextCount contextLines =
     (let trimIndex = max 0 (int (length (code b)) - contextCount + contextLines) in
      if trimIndex < int (length (code b)) then
        (let b' = b\<lparr>code := take (nat trimIndex) (code b)\<rparr> in
         if code b' \<noteq> [] then b'\<lparr>endLine := Some (lineNumber (last (code b')))\<rparr> else b')
      else b)"

text \<open>The end test after a context line inside a block: when enough context has been
  seen the block is trimmed, pushed on the results and a new one begun.\<close>

definition endCheck :: "string \<Rightarrow> int \<Rightarrow> xstate \<Rightarrow> xstate" where
  "endCheck fp contextLines st =
     (case scanBack (rev (code (currentBlock st))) 0 contextLines of
        None \<Rightarrow> st
      | Some contextCount \<Rightarrow>
          (let b = trimBlock (currentBlock st) contextCount contextLines in
           \<lparr>inChangeBlock = False,
            currentBlock = emptyBlock fp,
            contextBuffer = [],
            codeBlocks =
              (if hasChanges b \<and> code b \<noteq> [] then codeBlocks st @ [b] else codeBlocks st)\<rparr>))"

text \<open>One turn of the loop over the hunk's lines.\<close>

definition lineStep :: "string \<Rightarrow> int \<Rightarrow> xstate \<Rightarrow> line \<Rightarrow> xstate" where
  "lineStep fp contextLines st ln =
     (case newLineNumber ln of
        None \<Rightarrow> st
      | Some n \<Rightarrow>
          (let lt = lineType ln;
               st1 = (if (lt = Added \<or> lt = Removed) \<and> \<not> inChangeBlock st
                      then startBlock n contextLines st else st);
               st2 = addLine (stripNewline (content ln)) lt n contextLines st1
           in if lt = Context \<and> inChangeBlock st2 then endCheck fp contextLines st2 else st2))"

text \<open>One hunk: the loop, then the last block if one is open.\<close>

definition extractHunk :: "string \<Rightarrow> int \<Rightarrow> block list \<Rightarrow> hunk \<Rightarrow> block list" where
  "extractHunk fp contextLines acc h =
     (if orEmpty (lines h) = [] then acc
      else
        (let st = foldl (lineStep fp contextLines)
                    \<lparr>inChangeBlock = False, currentBlock = emptyBlock fp,
                     contextBuffer = [], codeBlocks = acc\<rparr>
                    (orEmpty (lines h))
         in if inChangeBlock st \<and> hasChanges (currentBlock st) \<and> code (currentBlock st) \<noteq> []
            then codeBlocks st @ [currentBlock st] else codeBlocks st))"

definition extractChange :: "int \<Rightarrow> block list \<Rightarrow> fileChange \<Rightarrow> block list" where
  "extractChange contextLines acc change =
     (if filePath change = [] then acc
      else if isDeleted change \<or> isBinary change then acc
      else foldl (extractHunk (filePath change) contextLines) acc (orEmpty (hunks change)))"

definition extractChangedCodeWithContext :: "fileChange list \<Rightarrow> int \<Rightarrow> block list" where
  "extractChangedCodeWithContext cs contextLines =
     (if cs = [] then [] else foldl (extractChange contextLines) [] cs)"

section \<open>findBestLineForComment\<close>

record lineInfo =
  type_i :: lineKind
  content_i :: string
  hunk_i :: hunk

record commentLine =
  line_c :: int
  originalLine :: "int option"
  exists_c :: bool
  type_c :: "lineKind option"
  inDiff :: bool
  adjusted :: "bool option"

text \<open>The \<^verbatim>\<open>Map\<close> is a list of entries in insertion order; \<^verbatim>\<open>set\<close> on a key that is
  present replaces the value in place.\<close>

fun mapSet :: "('k \<times> 'v) list \<Rightarrow> 'k \<Rightarrow> 'v \<Rightarrow> ('k \<times> 'v) list" where
  "mapSet [] k v = [(k, v)]"
| "mapSet ((k', v') # m) k v = (if k' = k then (k, v) # m else (k', v') # mapSet m k v)"

definition mapLine :: "hunk \<Rightarrow> (int \<times> lineInfo) list \<Rightarrow> line \<Rightarrow> (int \<times> lineInfo) list" where
  "mapLine h m ln =
     (case newLineNumber ln of
        None \<Rightarrow> m
      | Some n \<Rightarrow> mapSet m n \<lparr>type_i = lineType ln, content_i = content ln, hunk_i = h\<rparr>)"

definition mapHunk :: "(int \<times> lineInfo) list \<Rightarrow> hunk \<Rightarrow> (int \<times> lineInfo) list" where
  "mapHunk m h = foldl (mapLine h) m (orEmpty (lines h))"

definition buildLineMap :: "hunk list \<Rightarrow> (int \<times> lineInfo) list" where
  "buildLineMap hs = foldl mapHunk [] hs"

definition notInDiff :: "int \<Rightarrow> commentLine" where
  "notInDiff targetLine =
     \<lparr>line_c = targetLine, originalLine = None, exists_c = False, type_c = None,
      inDiff = False, adjusted = None\<rparr>"

text \<open>The body of the loop that looks for the closest line, on \<open>closestLine\<close> and
  \<open>minDistance\<close>.\<close>

definition closer :: "int \<Rightarrow> int \<times> int \<Rightarrow> int \<Rightarrow> int \<times> int" where
  "closer targetLine acc ln =
     (case acc of (closestLine, minDistance) \<Rightarrow>
        if \<bar>targetLine - ln\<bar> < minDistance then (ln, \<bar>targetLine - ln\<bar>) else acc)"

definition findBestLineForComment :: "fileChange option \<Rightarrow> int \<Rightarrow> error + commentLine" where
  "findBestLineForComment fileInfo targetLine =
     (case fileInfo of
        None \<Rightarrow> Inr (notInDiff targetLine)
      | Some fi \<Rightarrow>
          (case hunks fi of
             None \<Rightarrow> Inr (notInDiff targetLine)
           | Some hs \<Rightarrow>
               (let lineMap = buildLineMap hs in
                case map_of lineMap targetLine of
                  Some info \<Rightarrow>
                    Inr \<lparr>line_c = targetLine, originalLine = None, exists_c = True,
                         type_c = Some (type_i info), inDiff = True, adjusted = None\<rparr>
                | None \<Rightarrow>
                    (let availableLines = sort (map fst lineMap) in
                     case availableLines of
                       [] \<Rightarrow> Inr (notInDiff targetLine)
                     | first # rest \<Rightarrow>
                         (case foldl (closer targetLine) (first, \<bar>targetLine - first\<bar>)
                                 availableLines of
                            (closestLine, minDistance) \<Rightarrow>
                              (case map_of lineMap closestLine of
                                 None \<Rightarrow> Inl TypeError
                               | Some info \<Rightarrow>
                                   Inr \<lparr>line_c = closestLine, originalLine = Some targetLine,
                                        exists_c = True, type_c = Some (type_i info),
                                        inDiff = True, adjusted = Some True\<rparr>))))))"

section \<open>Notions used to state the properties\<close>

text \<open>All lines of a file's hunks, in order, and the number of lines of one kind.\<close>

definition linesOf :: "fileChange \<Rightarrow> line list" where
  "linesOf f = concat (map (\<lambda>h. orEmpty (lines h)) (orEmpty (hunks f)))"

definition countKind :: "lineKind \<Rightarrow> line list \<Rightarrow> int" where
  "countKind k ls = int (length (filter (\<lambda>l. lineType l = k) ls))"

definition addedCount :: "fileChange \<Rightarrow> int" where
  "addedCount f = countKind Added (linesOf f)"

definition removedCount :: "fileChange \<Rightarrow> int" where
  "removedCount f = countKind Removed (linesOf f)"

text \<open>The statistics entry of one file: its own counts and its flags.\<close>

definition statOf :: "fileChange \<Rightarrow> fileStat" where
  "statOf f = \<lparr>filePath_s = (if filePath f = [] then ''unknown_file'' else filePath f),
     added = addedCount f, removed = removedCount f,
     isNew_s = isNew f, isDeleted_s = isDeleted f, isBinary_s = isBinary f\<rparr>"

text \<open>The new-file line numbers carried by the lines of a list of hunks: the lines a
  comment can be placed on.\<close>

definition addressable :: "hunk list \<Rightarrow> int list" where
  "addressable hs = concat (map (\<lambda>h. List.map_filter newLineNumber (orEmpty (lines h))) hs)"


definition diffRemovalsOnly :: string where
  "diffRemovalsOnly =
     ''diff --git a/a.js b/a.js\<newline>--- a/a.js\<newline>+++ b/a.js\<newline>@@ -1,2 +0,0 @@\<newline>-one\<newline>-two''"

text \<open>The lines the loop of \<open>parseDiff\<close> runs over.\<close>

definition inputLines :: "string \<Rightarrow> string list" where
  "inputLines diffText = splitLines (stripCR diffText)"

text \<open>The parser's own objects have all their properties: every file has a hunk list
  and every hunk a line list. In a well-formed state the references name objects of
  \<open>changes\<close>.\<close>

definition filesOk :: "fileChange list \<Rightarrow> bool" where
  "filesOk cs = (\<forall>f \<in> set cs. hunks f \<noteq> None \<and> (\<forall>h \<in> set (orEmpty (hunks f)). lines h \<noteq> None))"

definition wellFormed :: "pstate \<Rightarrow> bool" where
  "wellFormed s =
     (filesOk (changes s)
      \<and> (\<forall>i. currentFile s = Some i \<longrightarrow> i < length (changes s))
      \<and> (\<forall>fi hi. currentHunk s = Some (fi, hi) \<longrightarrow>
            fi < length (changes s) \<and> hi < length (orEmpty (hunks (changes s ! fi)))))"

definition allHunks :: "(hunk \<Rightarrow> bool) \<Rightarrow> fileChange list \<Rightarrow> bool" where
  "allHunks P cs = (\<forall>f \<in> set cs. \<forall>h \<in> set (orEmpty (hunks f)). P h)"

text \<open>A line counts on the old side when it is a context or removed line, on the new
  side when it is a context or added line. Line \<open>k\<close> of a hunk is numbered as the
  specification says when each of its two numbers is the hunk's start value plus the
  number of earlier lines of the hunk on that side, and absent when the line is not on
  that side. It is numbered as the doubles give when each number is the double nearest
  to that sum, which is the sum itself whenever the sum is at most \<open>2^53\<close>.\<close>

definition oldSide :: "line \<Rightarrow> bool" where
  "oldSide l = (lineType l = Context \<or> lineType l = Removed)"

definition newSide :: "line \<Rightarrow> bool" where
  "newSide l = (lineType l = Context \<or> lineType l = Added)"

definition countPrior :: "(line \<Rightarrow> bool) \<Rightarrow> line list \<Rightarrow> nat \<Rightarrow> int" where
  "countPrior side ls k = int (length (filter side (take k ls)))"

definition lineNumbered :: "hunk \<Rightarrow> nat \<Rightarrow> bool" where
  "lineNumbered h k =
     (let ls = orEmpty (lines h); l = ls ! k in
      oldLineNumber l = (if oldSide l then Some (oldStart h + countPrior oldSide ls k) else None)
      \<and> newLineNumber l = (if newSide l then Some (newStart h + countPrior newSide ls k) else None))"

definition lineNumberedDouble :: "hunk \<Rightarrow> nat \<Rightarrow> bool" where
  "lineNumberedDouble h k =
     (let ls = orEmpty (lines h); l = ls ! k in
      oldLineNumber l =
        (if oldSide l then Some (toDouble (oldStart h + countPrior oldSide ls k)) else None)
      \<and> newLineNumber l =
        (if newSide l then Some (toDouble (newStart h + countPrior newSide ls k)) else None)
      \<and> (oldSide l \<and> \<bar>oldStart h + countPrior oldSide ls k\<bar> \<le> 2 ^ 53
           \<longrightarrow> oldLineNumber l = Some (oldStart h + countPrior oldSide ls k))
      \<and> (newSide l \<and> \<bar>newStart h + countPrior newSide ls k\<bar> \<le> 2 ^ 53
           \<longrightarrow> newLineNumber l = Some (newStart h + countPrior newSide ls k)))"

text \<open>All hunks of the files parsed from a text.\<close>

definition linesHunks :: "string \<Rightarrow> hunk list" where
  "linesHunks diffText = concat (map (\<lambda>f. orEmpty (hunks f)) (parseDiff diffText))"







text \<open>A line that no branch of the parser tests for.\<close>

definition unknownPrefix :: "string \<Rightarrow> bool" where
  "unknownPrefix l =
     (\<not> startsWith l ''diff --git'' \<and> \<not> startsWith l ''new file mode''
      \<and> \<not> startsWith l ''deleted file mode'' \<and> \<not> startsWith l ''similarity index''
      \<and> \<not> startsWith l ''rename from'' \<and> \<not> startsWith l ''rename to''
      \<and> \<not> matchBinary l \<and> \<not> startsWith l ''---'' \<and> \<not> startsWith l ''+++''
      \<and> \<not> startsWith l ''@@'' \<and> \<not> startsWith l '' '' \<and> \<not> startsWith l ''+''
      \<and> \<not> startsWith l ''-'')"

text \<open>More concrete inputs: the scenario of the specification, a hunk at old and new
  line 9 with one line added after two unchanged ones; and a text with CRLF line ends, a
  malformed file header and a malformed hunk header.\<close>

definition diffScenario :: string where
  "diffScenario =
     ''diff --git a/a.js b/a.js\<newline>--- a/a.js\<newline>+++ b/a.js\<newline>@@ -9,3 +9,4 @@\<newline> unchanged9\<newline> unchanged10\<newline>+newline\<newline> unchanged11''"

definition diffMalformed :: string where
  "diffMalformed =
     ''diff --git a/f b/f'' @ [CHR 0x0D, CHR 0x0A] @ ''diff --git broken'' @ [CHR 0x0D, CHR 0x0A]
     @ ''@@ -1 +1,2 @@'' @ [CHR 0x0D, CHR 0x0A] @ '' a'' @ [CHR 0x0D, CHR 0x0A]
     @ ''@@ -x +y @@'' @ [CHR 0x0D, CHR 0x0A] @ ''+b'' @ [CHR 0x0D, CHR 0x0A] @ ''? no newline at end''"

text \<open>The entry that the extractor makes of a numbered line, the entry it makes of a
  buffered context line, and the entries of the numbered lines of a list of lines.\<close>

definition entryOf :: "line \<Rightarrow> int \<Rightarrow> codeEntry" where
  "entryOf l n = \<lparr>content_e = stripNewline (content l), lineNumber = n,
     isChange = (lineType l = Added \<or> lineType l = Removed)\<rparr>"

definition bufEntry :: "string \<times> int \<Rightarrow> codeEntry" where
  "bufEntry p = \<lparr>content_e = fst p, lineNumber = snd p, isChange = False\<rparr>"

definition entriesOf :: "line list \<Rightarrow> codeEntry list" where
  "entriesOf ls = List.map_filter (\<lambda>l. map_option (entryOf l) (newLineNumber l)) ls"

text \<open>The shape of a block while it is open and when it is returned: at most
  \<open>contextLines\<close> unchanged entries, then a changed entry, from whose number
  \<open>startLine\<close> was computed, then the rest; \<open>endLine\<close> is the number of the last
  entry.\<close>

definition blockOk :: "int \<Rightarrow> block \<Rightarrow> bool" where
  "blockOk c b =
     (\<exists>pre e post. code b = pre @ e # post \<and> isChange e \<and> (\<forall>x \<in> set pre. \<not> isChange x)
        \<and> int (length pre) \<le> max 0 c
        \<and> startLine b = Some (max 1 (lineNumber e - c))
        \<and> endLine b = Some (lineNumber (last (code b)))
        \<and> hasChanges b)"

text \<open>The invariant of the loop over one hunk's lines, for the blocks found since the
  hunk began (\<open>acc\<close> holds those found before) and a set \<open>E\<close> of admitted entries.\<close>

definition hunkInv :: "int \<Rightarrow> codeEntry set \<Rightarrow> block list \<Rightarrow> xstate \<Rightarrow> bool" where
  "hunkInv c E acc st =
     ((\<exists>bs. codeBlocks st = acc @ bs \<and> (\<forall>b \<in> set bs. blockOk c b \<and> set (code b) \<subseteq> E))
      \<and> int (length (contextBuffer st)) \<le> max 0 c
      \<and> bufEntry ` set (contextBuffer st) \<subseteq> E
      \<and> (if inChangeBlock st
          then blockOk c (currentBlock st) \<and> set (code (currentBlock st)) \<subseteq> E
          else code (currentBlock st) = []))"

text \<open>A diff whose hunk removes two lines between two context lines, and a diff whose
  hunk has three context lines before and after one added line.\<close>

definition diffRemovalsInContext :: string where
  "diffRemovalsInContext =
     ''diff --git a/a.js b/a.js\<newline>--- a/a.js\<newline>+++ b/a.js\<newline>@@ -1,4 +1,2 @@\<newline> keep1\<newline>-one\<newline>-two\<newline> keep2''"

definition diffLeadingContext :: string where
  "diffLeadingContext =
     ''diff --git a/a.js b/a.js\<newline>--- a/a.js\<newline>+++ b/a.js\<newline>@@ -8,6 +8,7 @@\<newline> c8\<newline> c9\<newline> c10\<newline>+new11\<newline> c11\<newline> c12\<newline> c13''"

section \<open>Properties of analyzeChanges\<close>

lemma foldl_countLine:
  "foldl countLine (a, b, c, d) ls =
     (a + countKind Added ls, b + countKind Removed ls,
      c + countKind Added ls, d + countKind Removed ls)"
  by (induction ls arbitrary: a b c d) (auto simp: countLine_def countKind_def)

lemma countKind_append: "countKind k (xs @ ys) = countKind k xs + countKind k ys"
  by (simp add: countKind_def)

lemma countKind_Nil: "countKind k [] = 0"
  by (simp add: countKind_def)

lemma countHunk_eq:
  "countHunk (a, b, c, d) h =
     (a + countKind Added (orEmpty (lines h)), b + countKind Removed (orEmpty (lines h)),
      c + countKind Added (orEmpty (lines h)), d + countKind Removed (orEmpty (lines h)))"
  by (simp add: countHunk_def foldl_countLine)

lemma foldl_countHunk:
  "foldl countHunk (a, b, c, d) hs =
     (a + countKind Added (concat (map (\<lambda>h. orEmpty (lines h)) hs)),
      b + countKind Removed (concat (map (\<lambda>h. orEmpty (lines h)) hs)),
      c + countKind Added (concat (map (\<lambda>h. orEmpty (lines h)) hs)),
      d + countKind Removed (concat (map (\<lambda>h. orEmpty (lines h)) hs)))"
  by (induction hs arbitrary: a b c d)
    (simp_all add: countHunk_eq countKind_append countKind_Nil)

lemma analyzeChange_eq:
  "analyzeChange (a, b, st) f = (a + addedCount f, b + removedCount f, st @ [statOf f])"
  by (simp add: analyzeChange_def foldl_countHunk addedCount_def removedCount_def
      linesOf_def statOf_def)

lemma foldl_analyzeChange:
  "foldl analyzeChange (a, b, st) cs =
     (a + sum_list (map addedCount cs), b + sum_list (map removedCount cs), st @ map statOf cs)"
  by (induction cs arbitrary: a b st) (simp_all add: analyzeChange_eq)

lemma analyzeChanges_eq:
  "analyzeChanges cs =
     \<lparr>totalFiles = int (length cs), totalAdded = sum_list (map addedCount cs),
      totalRemoved = sum_list (map removedCount cs), fileStats = map statOf cs\<rparr>"
  by (simp add: analyzeChanges_def foldl_analyzeChange)

text \<open>
  Claim C8, as the code has it. The totals are the sums of the files' added and removed
  line counts over all their hunks, \<open>fileStats\<close> lists the files in input order with each
  file's own counts and its flags, a file without hunks adds nothing to the totals
  wherever it stands in the list, and the empty list gives the all-zero result.
  \<open>analyzeChanges\<close> never reads \<open>isBinary\<close> except to copy it: a binary file adds nothing
  only because, and when, it holds no added or removed lines.
\<close>

theorem analyze_totals:
  "totalAdded (analyzeChanges cs) = sum_list (map addedCount cs)
   \<and> totalRemoved (analyzeChanges cs) = sum_list (map removedCount cs)
   \<and> fileStats (analyzeChanges cs) = map statOf cs
   \<and> (orEmpty (hunks f) = [] \<longrightarrow>
        totalAdded (analyzeChanges (cs @ f # ds)) = totalAdded (analyzeChanges (cs @ ds))
        \<and> totalRemoved (analyzeChanges (cs @ f # ds)) = totalRemoved (analyzeChanges (cs @ ds)))
   \<and> analyzeChanges [] = \<lparr>totalFiles = 0, totalAdded = 0, totalRemoved = 0, fileStats = []\<rparr>"
  by (simp add: analyzeChanges_eq addedCount_def removedCount_def linesOf_def countKind_def)

text \<open>The theorem at a parsed diff of one file with one added line, followed by a
  rename-only file, which has no hunks.\<close>

theorem analyze_totals_witness:
  "orEmpty (hunks (newFile ''old.js'' ''new.js'')) = []
   \<and> totalAdded (analyzeChanges
        (parseDiff ''diff --git a/f b/f\<newline>@@ -1 +1,2 @@\<newline> a\<newline>+b''
          @ [newFile ''old.js'' ''new.js''])) = 1
   \<and> totalAdded (analyzeChanges
        (parseDiff ''diff --git a/f b/f\<newline>@@ -1 +1,2 @@\<newline> a\<newline>+b'')) = 1"
proof -
  have e: "totalAdded (analyzeChanges
      (parseDiff ''diff --git a/f b/f\<newline>@@ -1 +1,2 @@\<newline> a\<newline>+b'')) = 1"
    by code_simp
  have h: "orEmpty (hunks (newFile ''old.js'' ''new.js'')) = []"
    by (simp add: newFile_def orEmpty_def)
  show ?thesis
    using analyze_totals [of
        "parseDiff ''diff --git a/f b/f\<newline>@@ -1 +1,2 @@\<newline> a\<newline>+b''"
        "newFile ''old.js'' ''new.js''" "[]"] e h
    by simp
qed

text \<open>
  Claim C8 as stated fails: the file parsed from the text below is binary, and its hunk,
  opened before the binary marker, holds an added line, which \<open>analyzeChanges\<close> counts.
\<close>

theorem analyze_binary_counterexample:
  "map isBinary
     (parseDiff ''diff --git a/f b/f\<newline>@@ -1 +1 @@\<newline>+x\<newline>Binary files a/f and b/f differ'')
     = [True]
   \<and> totalAdded (analyzeChanges
       (parseDiff ''diff --git a/f b/f\<newline>@@ -1 +1 @@\<newline>+x\<newline>Binary files a/f and b/f differ''))
     = 1"
  by code_simp

text \<open>
  Claim C10, as the code has it. For a non-empty list of file changes \<open>totalFiles\<close> is
  the length of the list. Every file, whatever its flags and hunks and wherever it stands
  in the list, adds one to \<open>totalFiles\<close> and the added and removed lines of its hunks to
  the line totals: a file with an empty hunk list adds no line, and a binary file adds
  the lines that its hunks hold.
\<close>

theorem analyze_counts_every_file:
  "(cs \<noteq> [] \<longrightarrow> totalFiles (analyzeChanges cs) = int (length cs))
   \<and> totalFiles (analyzeChanges (cs @ f # ds)) = totalFiles (analyzeChanges (cs @ ds)) + 1
   \<and> totalAdded (analyzeChanges (cs @ f # ds))
       = totalAdded (analyzeChanges (cs @ ds)) + addedCount f
   \<and> totalRemoved (analyzeChanges (cs @ f # ds))
       = totalRemoved (analyzeChanges (cs @ ds)) + removedCount f
   \<and> (orEmpty (hunks f) = [] \<longrightarrow> addedCount f = 0 \<and> removedCount f = 0)"
  by (simp add: analyzeChanges_eq addedCount_def removedCount_def linesOf_def countKind_def)

text \<open>
  Claim C10 as stated fails: the file parsed from the text below is binary, and its hunk,
  opened before the binary marker, holds a removed line. The file is counted in
  \<open>totalFiles\<close> and its line in \<open>totalRemoved\<close>.
\<close>

theorem analyze_binary_removed_counterexample:
  "map isBinary
     (parseDiff ''diff --git a/f b/f\<newline>@@ -1 +0,0 @@\<newline>-x\<newline>Binary files a/f and b/f differ'')
     = [True]
   \<and> totalFiles (analyzeChanges
       (parseDiff ''diff --git a/f b/f\<newline>@@ -1 +0,0 @@\<newline>-x\<newline>Binary files a/f and b/f differ''))
     = 1
   \<and> totalRemoved (analyzeChanges
       (parseDiff ''diff --git a/f b/f\<newline>@@ -1 +0,0 @@\<newline>-x\<newline>Binary files a/f and b/f differ''))
     = 1"
  by code_simp

text \<open>The theorem at a binary file without hunks between a file with an empty hunk list
  and the binary file of the text above.\<close>

theorem analyze_counts_every_file_witness:
  "[newFile ''a.js'' ''a.js''] \<noteq> []
   \<and> orEmpty (hunks ((newFile ''img.png'' ''img.png'')\<lparr>isBinary := True\<rparr>)) = []
   \<and> totalFiles (analyzeChanges [newFile ''a.js'' ''a.js'']) = 1
   \<and> totalFiles (analyzeChanges
        (newFile ''a.js'' ''a.js'' # (newFile ''img.png'' ''img.png'')\<lparr>isBinary := True\<rparr>
          # parseDiff ''diff --git a/f b/f\<newline>@@ -1 +0,0 @@\<newline>-x\<newline>Binary files a/f and b/f differ''))
       = 3
   \<and> totalRemoved (analyzeChanges
        (newFile ''a.js'' ''a.js'' # (newFile ''img.png'' ''img.png'')\<lparr>isBinary := True\<rparr>
          # parseDiff ''diff --git a/f b/f\<newline>@@ -1 +0,0 @@\<newline>-x\<newline>Binary files a/f and b/f differ''))
       = 1"
proof -
  let ?a = "newFile ''a.js'' ''a.js''"
  let ?i = "(newFile ''img.png'' ''img.png'')\<lparr>isBinary := True\<rparr>"
  let ?p = "parseDiff ''diff --git a/f b/f\<newline>@@ -1 +0,0 @@\<newline>-x\<newline>Binary files a/f and b/f differ''"
  have h: "orEmpty (hunks ?i) = []" by (simp add: newFile_def orEmpty_def)
  have f: "totalFiles (analyzeChanges (?a # ?p)) = 2" by code_simp
  have r: "totalRemoved (analyzeChanges (?a # ?p)) = 1" by code_simp
  from analyze_counts_every_file [of "[?a]" ?i ?p] h f r show ?thesis by simp
qed

section \<open>Properties of findBestLineForComment\<close>

lemma keys_mapSet: "fst ` set (mapSet m k v) = insert k (fst ` set m)"
  by (induction m k v rule: mapSet.induct) auto

lemma keys_mapLine:
  "fst ` set (foldl (mapLine h) m ls) = fst ` set m \<union> set (List.map_filter newLineNumber ls)"
proof (induction ls arbitrary: m)
  case Nil
  show ?case by (simp add: List.map_filter_simps)
next
  case (Cons l ls)
  show ?case
  proof (cases "newLineNumber l")
    case None
    then show ?thesis using Cons.IH [of m] by (simp add: mapLine_def List.map_filter_simps)
  next
    case (Some n)
    then show ?thesis
      using Cons.IH [of "mapSet m n \<lparr>type_i = lineType l, content_i = content l, hunk_i = h\<rparr>"]
      by (simp add: mapLine_def List.map_filter_simps keys_mapSet)
  qed
qed

lemma keys_mapHunk:
  "fst ` set (foldl mapHunk m hs) = fst ` set m \<union> set (addressable hs)"
proof (induction hs arbitrary: m)
  case Nil
  show ?case by (simp add: addressable_def)
next
  case (Cons h hs)
  have "fst ` set (mapHunk m h)
      = fst ` set m \<union> set (List.map_filter newLineNumber (orEmpty (lines h)))"
    unfolding mapHunk_def by (rule keys_mapLine)
  then show ?case
    using Cons.IH [of "mapHunk m h"] by (auto simp: addressable_def)
qed

lemma keys_buildLineMap: "fst ` set (buildLineMap hs) = set (addressable hs)"
  by (simp add: buildLineMap_def keys_mapHunk)







text \<open>
  Claim C6. When no line of the file's hunks carries a new-file line number, also when
  the file record or its hunk list is absent or the list is empty, the result is exactly
  \<open>{line: targetLine, exists: false, type: null, inDiff: false}\<close>, with no other
  property, and nothing is raised.
\<close>

theorem locate_nothing:
  "fileInfo = None \<or> (\<exists>fi. fileInfo = Some fi \<and> (hunks fi = None \<or> addressable (orEmpty (hunks fi)) = []))
   \<Longrightarrow> findBestLineForComment fileInfo t =
       Inr \<lparr>line_c = t, originalLine = None, exists_c = False, type_c = None,
            inDiff = False, adjusted = None\<rparr>"
proof (elim disjE exE conjE)
  assume "fileInfo = None"
  then show ?thesis by (simp add: findBestLineForComment_def notInDiff_def)
next
  fix fi assume "fileInfo = Some fi" "hunks fi = None"
  then show ?thesis by (simp add: findBestLineForComment_def notInDiff_def)
next
  fix fi assume f: "fileInfo = Some fi" and a: "addressable (orEmpty (hunks fi)) = []"
  show ?thesis
  proof (cases "hunks fi")
    case None
    with f show ?thesis by (simp add: findBestLineForComment_def notInDiff_def)
  next
    case (Some hs)
    with a have e: "addressable hs = []" by (simp add: orEmpty_def)
    then have "fst ` set (buildLineMap hs) = {}" by (simp add: keys_buildLineMap)
    then have m: "buildLineMap hs = []" by simp
    with f Some show ?thesis by (simp add: findBestLineForComment_def notInDiff_def)
  qed
qed

text \<open>The theorem at the parsed diff whose hunk only removes lines.\<close>

theorem locate_nothing_witness:
  "addressable (orEmpty (hunks (hd (parseDiff diffRemovalsOnly)))) = []
   \<and> findBestLineForComment (Some (hd (parseDiff diffRemovalsOnly))) 7 =
       Inr \<lparr>line_c = 7, originalLine = None, exists_c = False, type_c = None,
            inDiff = False, adjusted = None\<rparr>"
proof -
  have a: "addressable (orEmpty (hunks (hd (parseDiff diffRemovalsOnly)))) = []"
    by code_simp
  then show ?thesis
    using locate_nothing [of "Some (hd (parseDiff diffRemovalsOnly))" 7] by blast
qed

section \<open>Properties of parseDiff\<close>

lemma orEmpty_Some [simp]: "orEmpty (Some xs) = xs"
  by (simp add: orEmpty_def)

lemma orEmpty_None [simp]: "orEmpty None = []"
  by (simp add: orEmpty_def)

lemma wf_currentFile:
  "wellFormed s \<Longrightarrow> currentFile s = Some i \<Longrightarrow> i < length (changes s)"
  by (simp add: wellFormed_def)

lemma wf_currentHunk:
  "wellFormed s \<Longrightarrow> currentHunk s = Some (fi, hi) \<Longrightarrow>
     fi < length (changes s) \<and> hi < length (orEmpty (hunks (changes s ! fi)))"
  by (simp add: wellFormed_def)

lemma wf_hunks:
  "wellFormed s \<Longrightarrow> i < length (changes s) \<Longrightarrow> \<exists>hs. hunks (changes s ! i) = Some hs"
  by (auto simp: wellFormed_def filesOk_def dest: nth_mem)

lemma wf_lines:
  "wellFormed s \<Longrightarrow> i < length (changes s) \<Longrightarrow> hunks (changes s ! i) = Some hs \<Longrightarrow>
     j < length hs \<Longrightarrow> \<exists>ls. lines (hs ! j) = Some ls"
proof -
  assume w: "wellFormed s" and i: "i < length (changes s)"
    and h: "hunks (changes s ! i) = Some hs" and j: "j < length hs"
  from i have "changes s ! i \<in> set (changes s)" by simp
  with w have "\<forall>h \<in> set (orEmpty (hunks (changes s ! i))). lines h \<noteq> None"
    by (simp add: wellFormed_def filesOk_def)
  with h j have "lines (hs ! j) \<noteq> None" by simp
  then show ?thesis by auto
qed

lemma withCurrentFile_effect:
  assumes "wellFormed s"
  shows "withCurrentFile s g =
     (case currentFile s of None \<Rightarrow> Inr s | Some i \<Rightarrow> Inr (setFile s i (g (changes s ! i))))"
  using wf_currentFile [OF assms]
  by (simp add: withCurrentFile_def getFile_def split: option.splits)

lemma hunkHeaderGuard_effect:
  assumes "wellFormed s"
  shows "hunkHeaderGuard s l =
     Inr (startsWith l ''@@'' \<and> (case currentFile s of None \<Rightarrow> False
            | Some i \<Rightarrow> \<not> isBinary (changes s ! i)))"
  using wf_currentFile [OF assms]
  by (simp add: hunkHeaderGuard_def getFile_def split: option.splits)

lemma openHunk_effect:
  assumes w: "wellFormed s" and c: "currentFile s = Some i"
  shows "openHunk s l = Inr s
     \<or> (\<exists>hs h. hunks (changes s ! i) = Some hs \<and> lines h = Some []
          \<and> openHunk s l = Inr ((setFile s i ((changes s ! i)\<lparr>hunks := Some (hs @ [h])\<rparr>))
                                  \<lparr>currentHunk := Some (i, length hs)\<rparr>))"
proof (cases "matchHunkHeader l")
  case None
  then show ?thesis by (simp add: openHunk_def)
next
  case (Some m)
  obtain m1 m2 m3 m4 m5 where m: "m = (m1, m2, m3, m4, m5)" by (cases m) auto
  from wf_currentFile [OF w c] have i: "i < length (changes s)" .
  from wf_hunks [OF w i] obtain hs where hs: "hunks (changes s ! i) = Some hs" by blast
  have "lines (newHunk m1 m2 m3 m4 m5) = Some []" by (simp add: newHunk_def)
  then show ?thesis
    using Some m c i hs by (auto simp: openHunk_def getFile_def)
qed

lemma appendLine_effect:
  assumes w: "wellFormed s" and c: "currentHunk s = Some (fi, hi)"
  shows "\<exists>hs hl. hunks (changes s ! fi) = Some hs \<and> hi < length hs \<and> lines (hs ! hi) = Some hl
     \<and> appendLine s l = Inr (setFile s fi ((changes s ! fi)
         \<lparr>hunks := Some (hs[hi := (hs ! hi)\<lparr>lines := Some (hl @ [makeLine (hs ! hi) hl l])\<rparr>])\<rparr>))"
proof -
  from wf_currentHunk [OF w c] have fi: "fi < length (changes s)"
    and hi: "hi < length (orEmpty (hunks (changes s ! fi)))" by simp_all
  from wf_hunks [OF w fi] obtain hs where hs: "hunks (changes s ! fi) = Some hs" by blast
  with hi have hi': "hi < length hs" by simp
  from wf_lines [OF w fi hs hi'] obtain hl where hl: "lines (hs ! hi) = Some hl" by blast
  show ?thesis
    using c fi hs hi' hl by (simp add: appendLine_def getFile_def)
qed

text \<open>What one turn of the loop can do to a well-formed state.\<close>

lemma step_effect:
  assumes w: "wellFormed s"
  shows "step s l = Inr s
    \<or> (\<exists>m1 m2. matchDiffGit l = Some (m1, m2)
          \<and> step s l = Inr (s\<lparr>changes := changes s @ [newFile m1 m2],
                               currentFile := Some (length (changes s))\<rparr>))
    \<or> (\<exists>i g. currentFile s = Some i \<and> (\<forall>f. hunks (g f) = hunks f \<and> filePath (g f) = filePath f)
          \<and> step s l = Inr (setFile s i (g (changes s ! i))))
    \<or> (\<exists>i m. currentFile s = Some i \<and> matchPlus l = Some m \<and> m \<noteq> ''/dev/null''
          \<and> step s l = Inr (setFile s i ((changes s ! i)\<lparr>filePath := trim m\<rparr>)))
    \<or> (\<exists>i hs h. currentFile s = Some i \<and> hunks (changes s ! i) = Some hs \<and> lines h = Some []
          \<and> step s l = Inr ((setFile s i ((changes s ! i)\<lparr>hunks := Some (hs @ [h])\<rparr>))
                               \<lparr>currentHunk := Some (i, length hs)\<rparr>))
    \<or> (\<exists>fi hi hs hl. currentHunk s = Some (fi, hi) \<and> hunks (changes s ! fi) = Some hs
          \<and> hi < length hs \<and> lines (hs ! hi) = Some hl
          \<and> step s l = Inr (setFile s fi ((changes s ! fi)
               \<lparr>hunks := Some (hs[hi := (hs ! hi)
                  \<lparr>lines := Some (hl @ [makeLine (hs ! hi) hl l])\<rparr>])\<rparr>)))"
  (is "?same \<or> ?file \<or> ?flag \<or> ?path \<or> ?hunk \<or> ?line")
proof -
  have flag: "?same \<or> ?flag" if "step s l = withCurrentFile s g"
    and "\<forall>f. hunks (g f) = hunks f \<and> filePath (g f) = filePath f" for g
    using that withCurrentFile_effect [OF w, of g]
    by (cases "currentFile s") auto
  consider (a) "startsWith l ''diff --git''"
    | (b) "\<not> startsWith l ''diff --git''" "startsWith l ''new file mode''"
    | (c) "\<not> startsWith l ''diff --git''" "\<not> startsWith l ''new file mode''"
          "startsWith l ''deleted file mode''"
    | (d) "\<not> startsWith l ''diff --git''" "\<not> startsWith l ''new file mode''"
          "\<not> startsWith l ''deleted file mode''"
          "startsWith l ''similarity index'' \<or> startsWith l ''rename from''
              \<or> startsWith l ''rename to''"
    | (e) "\<not> startsWith l ''diff --git''" "\<not> startsWith l ''new file mode''"
          "\<not> startsWith l ''deleted file mode''"
          "\<not> (startsWith l ''similarity index'' \<or> startsWith l ''rename from''
              \<or> startsWith l ''rename to'')" "matchBinary l"
    | (f) "\<not> startsWith l ''diff --git''" "\<not> startsWith l ''new file mode''"
          "\<not> startsWith l ''deleted file mode''"
          "\<not> (startsWith l ''similarity index'' \<or> startsWith l ''rename from''
              \<or> startsWith l ''rename to'')" "\<not> matchBinary l" "startsWith l ''---''"
    | (g) "\<not> startsWith l ''diff --git''" "\<not> startsWith l ''new file mode''"
          "\<not> startsWith l ''deleted file mode''"
          "\<not> (startsWith l ''similarity index'' \<or> startsWith l ''rename from''
              \<or> startsWith l ''rename to'')" "\<not> matchBinary l" "\<not> startsWith l ''---''"
          "startsWith l ''+++''"
    | (h) "\<not> startsWith l ''diff --git''" "\<not> startsWith l ''new file mode''"
          "\<not> startsWith l ''deleted file mode''"
          "\<not> (startsWith l ''similarity index'' \<or> startsWith l ''rename from''
              \<or> startsWith l ''rename to'')" "\<not> matchBinary l" "\<not> startsWith l ''---''"
          "\<not> startsWith l ''+++''"
    by blast
  then show ?thesis
  proof cases
    case a
    then show ?thesis by (cases "matchDiffGit l") (auto simp: step_def)
  next
    case b
    then have "step s l = withCurrentFile s (\<lambda>f. f\<lparr>isNew := True\<rparr>)" by (simp add: step_def)
    from flag [OF this] show ?thesis by auto
  next
    case c
    then have "step s l = withCurrentFile s (\<lambda>f. f\<lparr>isDeleted := True\<rparr>)"
      by (simp add: step_def)
    from flag [OF this] show ?thesis by auto
  next
    case d
    then have "step s l = withCurrentFile s (\<lambda>f. f\<lparr>isRenamed := True\<rparr>)"
      unfolding step_def by simp
    from flag [OF this] show ?thesis by auto
  next
    case e
    then have "step s l = withCurrentFile s (\<lambda>f. f\<lparr>isBinary := True\<rparr>)"
      unfolding step_def by simp
    from flag [OF this] show ?thesis by auto
  next
    case f
    then have st: "step s l = (case matchMinus l of None \<Rightarrow> Inr s
         | Some m \<Rightarrow> (if m \<noteq> ''/dev/null''
             then withCurrentFile s (\<lambda>f. f\<lparr>oldFilePath := trim m\<rparr>) else Inr s))"
      unfolding step_def by simp
    show ?thesis
    proof (cases "matchMinus l")
      case None
      with st show ?thesis by simp
    next
      case (Some m)
      show ?thesis
      proof (cases "m = ''/dev/null''")
        case True
        with st Some show ?thesis by simp
      next
        case False
        with st Some have "step s l = withCurrentFile s (\<lambda>f. f\<lparr>oldFilePath := trim m\<rparr>)"
          by simp
        from flag [OF this] show ?thesis by auto
      qed
    qed
  next
    case g
    then have st: "step s l = (case matchPlus l of None \<Rightarrow> Inr s
         | Some m \<Rightarrow> (if m \<noteq> ''/dev/null''
             then withCurrentFile s (\<lambda>f. f\<lparr>filePath := trim m\<rparr>) else Inr s))"
      unfolding step_def by simp
    show ?thesis
    proof (cases "matchPlus l")
      case None
      with st show ?thesis by simp
    next
      case (Some m)
      show ?thesis
      proof (cases "m = ''/dev/null'' \<or> currentFile s = None")
        case True
        with st Some show ?thesis by (auto simp: withCurrentFile_def)
      next
        case False
        then obtain i where i: "currentFile s = Some i" by auto
        with False st Some withCurrentFile_effect [OF w, of "\<lambda>f. f\<lparr>filePath := trim m\<rparr>"]
        have "step s l = Inr (setFile s i ((changes s ! i)\<lparr>filePath := trim m\<rparr>))"
          by simp
        with i Some False have ?path by blast
        then show ?thesis by blast
      qed
    qed
  next
    case h
    then have st: "step s l = (case hunkHeaderGuard s l of Inl e \<Rightarrow> Inl e
         | Inr True \<Rightarrow> openHunk s l
         | Inr False \<Rightarrow>
             (if currentHunk s \<noteq> None
                 \<and> (startsWith l '' '' \<or> startsWith l ''+'' \<or> startsWith l ''-'')
              then appendLine s l else Inr s))"
      unfolding step_def by simp
    show ?thesis
    proof (cases "startsWith l ''@@'' \<and> (case currentFile s of None \<Rightarrow> False
            | Some i \<Rightarrow> \<not> isBinary (changes s ! i))")
      case True
      then obtain i where i: "currentFile s = Some i" by (cases "currentFile s") auto
      from True st hunkHeaderGuard_effect [OF w, of l] have "step s l = openHunk s l" by simp
      with openHunk_effect [OF w i, of l] i have "?same \<or> ?hunk" by auto
      then show ?thesis by blast
    next
      case False
      with st hunkHeaderGuard_effect [OF w, of l]
      have st': "step s l = (if currentHunk s \<noteq> None
                 \<and> (startsWith l '' '' \<or> startsWith l ''+'' \<or> startsWith l ''-'')
              then appendLine s l else Inr s)" by simp
      show ?thesis
      proof (cases "currentHunk s \<noteq> None
                 \<and> (startsWith l '' '' \<or> startsWith l ''+'' \<or> startsWith l ''-'')")
        case True
        then obtain fi hi where c: "currentHunk s = Some (fi, hi)" by auto
        from True st' have "step s l = appendLine s l" by simp
        with appendLine_effect [OF w c, of l] c have ?line by auto
        then show ?thesis by blast
      next
        case False
        then have "step s l = Inr s" unfolding st' by (rule if_not_P)
        then show ?thesis by blast
      qed
    qed
  qed
qed


lemma startsWith_Cons: "startsWith l (c # p) \<Longrightarrow> \<exists>r. l = c # r"
  by (cases l) auto



lemma filesOk_update:
  assumes "filesOk cs" and "hunks f' = Some hs'" and "\<forall>h \<in> set hs'. lines h \<noteq> None"
  shows "filesOk (cs[i := f'])"
  unfolding filesOk_def
proof
  fix f assume "f \<in> set (cs[i := f'])"
  then have "f = f' \<or> f \<in> set cs"
    using set_update_subset_insert [of cs i f'] by auto
  then show "hunks f \<noteq> None \<and> (\<forall>h \<in> set (orEmpty (hunks f)). lines h \<noteq> None)"
  proof
    assume "f = f'"
    with assms(2,3) show ?thesis by simp
  next
    assume "f \<in> set cs"
    with assms(1) show ?thesis by (simp add: filesOk_def)
  qed
qed

lemma filesOk_nth:
  assumes "filesOk cs" and "i < length cs" and "hunks (cs ! i) = Some hs"
  shows "\<forall>h \<in> set hs. lines h \<noteq> None"
proof -
  from assms(2) have "cs ! i \<in> set cs" by simp
  with assms(1) have "\<forall>h \<in> set (orEmpty (hunks (cs ! i))). lines h \<noteq> None"
    by (simp add: filesOk_def)
  with assms(3) show ?thesis by simp
qed

text \<open>Replacing a file by one whose hunk list is at least as long keeps the references
  valid.\<close>

lemma wf_setFile:
  assumes w: "wellFormed s" and i: "i < length (changes s)"
    and old: "hunks (changes s ! i) = Some hs" and new: "hunks f' = Some hs'"
    and ok: "\<forall>h \<in> set hs'. lines h \<noteq> None" and len: "length hs \<le> length hs'"
  shows "wellFormed (setFile s i f')"
proof -
  from w have f: "filesOk (changes s)" by (simp add: wellFormed_def)
  have 1: "filesOk (changes (setFile s i f'))"
    using filesOk_update [OF f new ok] by (simp add: setFile_def)
  have 2: "\<forall>j. currentFile (setFile s i f') = Some j
      \<longrightarrow> j < length (changes (setFile s i f'))"
    using w by (simp add: wellFormed_def setFile_def)
  have 3: "\<forall>fi hi. currentHunk (setFile s i f') = Some (fi, hi)
      \<longrightarrow> fi < length (changes (setFile s i f'))
          \<and> hi < length (orEmpty (hunks (changes (setFile s i f') ! fi)))"
  proof (intro allI impI)
    fix fi hi assume "currentHunk (setFile s i f') = Some (fi, hi)"
    then have c: "currentHunk s = Some (fi, hi)" by (simp add: setFile_def)
    from wf_currentHunk [OF w c] have fi: "fi < length (changes s)"
      and hi: "hi < length (orEmpty (hunks (changes s ! fi)))" by simp_all
    show "fi < length (changes (setFile s i f'))
          \<and> hi < length (orEmpty (hunks (changes (setFile s i f') ! fi)))"
    proof (cases "fi = i")
      case True
      with hi old len new have "hi < length hs'" by simp
      with True fi new show ?thesis by (simp add: setFile_def)
    next
      case False
      with fi hi show ?thesis by (simp add: setFile_def)
    qed
  qed
  from 1 2 3 show ?thesis unfolding wellFormed_def by blast
qed

lemma wf_initState: "wellFormed initState"
  by (simp add: wellFormed_def initState_def filesOk_def)

lemma wf_push:
  assumes w: "wellFormed s"
  shows "wellFormed (s\<lparr>changes := changes s @ [newFile m1 m2],
                       currentFile := Some (length (changes s))\<rparr>)"
proof -
  from w have "filesOk (changes s)" by (simp add: wellFormed_def)
  then have 1: "filesOk (changes s @ [newFile m1 m2])"
    by (auto simp: filesOk_def newFile_def)
  have 3: "\<forall>fi hi. currentHunk s = Some (fi, hi) \<longrightarrow> fi < length (changes s @ [newFile m1 m2])
          \<and> hi < length (orEmpty (hunks ((changes s @ [newFile m1 m2]) ! fi)))"
  proof (intro allI impI)
    fix fi hi assume c: "currentHunk s = Some (fi, hi)"
    from wf_currentHunk [OF w c] have "fi < length (changes s)"
      and "hi < length (orEmpty (hunks (changes s ! fi)))" by simp_all
    then show "fi < length (changes s @ [newFile m1 m2])
          \<and> hi < length (orEmpty (hunks ((changes s @ [newFile m1 m2]) ! fi)))"
      by (simp add: nth_append)
  qed
  from 1 3 show ?thesis by (simp add: wellFormed_def)
qed

text \<open>One turn of the loop never raises on a well-formed state, and keeps it
  well-formed.\<close>

lemma step_wf:
  assumes w: "wellFormed s"
  shows "\<exists>s'. step s l = Inr s' \<and> wellFormed s'"
proof -
  have sf: "wellFormed (setFile s i f')"
    if "currentFile s = Some i" "hunks f' = hunks (changes s ! i)" for i f'
  proof -
    from wf_currentFile [OF w that(1)] have i: "i < length (changes s)" .
    from wf_hunks [OF w i] obtain hs where hs: "hunks (changes s ! i) = Some hs" by blast
    from w i hs have "\<forall>h \<in> set hs. lines h \<noteq> None"
      by (intro filesOk_nth [of "changes s" i hs]) (simp_all add: wellFormed_def)
    with wf_setFile [OF w i hs, of f' hs] that(2) hs show ?thesis by simp
  qed
  from step_effect [OF w, of l] consider
      (same) "step s l = Inr s"
    | (push) m1 m2 where "step s l = Inr (s\<lparr>changes := changes s @ [newFile m1 m2],
                               currentFile := Some (length (changes s))\<rparr>)"
    | (flag) i g where "currentFile s = Some i"
        "\<forall>f. hunks (g f) = hunks f \<and> filePath (g f) = filePath f"
        "step s l = Inr (setFile s i (g (changes s ! i)))"
    | (path) i m where "currentFile s = Some i" "matchPlus l = Some m" "m \<noteq> ''/dev/null''"
        "step s l = Inr (setFile s i ((changes s ! i)\<lparr>filePath := trim m\<rparr>))"
    | (hunk) i hs h where "currentFile s = Some i" "hunks (changes s ! i) = Some hs"
        "lines h = Some []"
        "step s l = Inr ((setFile s i ((changes s ! i)\<lparr>hunks := Some (hs @ [h])\<rparr>))
                               \<lparr>currentHunk := Some (i, length hs)\<rparr>)"
    | (line) fi hi hs hl where "currentHunk s = Some (fi, hi)"
        "hunks (changes s ! fi) = Some hs" "hi < length hs" "lines (hs ! hi) = Some hl"
        "step s l = Inr (setFile s fi ((changes s ! fi)
               \<lparr>hunks := Some (hs[hi := (hs ! hi)
                  \<lparr>lines := Some (hl @ [makeLine (hs ! hi) hl l])\<rparr>])\<rparr>))"
    by blast
  then show ?thesis
  proof cases
    case same
    with w show ?thesis by simp
  next
    case push
    with wf_push [OF w] show ?thesis by simp
  next
    case flag
    from sf [OF flag(1), of "g (changes s ! i)"] flag(2,3) show ?thesis by simp
  next
    case path
    from sf [OF path(1), of "(changes s ! i)\<lparr>filePath := trim m\<rparr>"] path(4)
    show ?thesis by simp
  next
    case hunk
    from wf_currentFile [OF w hunk(1)] have i: "i < length (changes s)" .
    from w i hunk(2) have "\<forall>h \<in> set hs. lines h \<noteq> None"
      by (intro filesOk_nth [of "changes s" i hs]) (simp_all add: wellFormed_def)
    with hunk(3) have ok: "\<forall>x \<in> set (hs @ [h]). lines x \<noteq> None" by auto
    let ?f = "(changes s ! i)\<lparr>hunks := Some (hs @ [h])\<rparr>"
    have "wellFormed (setFile s i ?f)"
      using wf_setFile [OF w i hunk(2), of ?f "hs @ [h]"] ok by simp
    then have "wellFormed ((setFile s i ?f)\<lparr>currentHunk := Some (i, length hs)\<rparr>)"
      using i by (simp add: wellFormed_def setFile_def)
    with hunk(4) show ?thesis by simp
  next
    case line
    from wf_currentHunk [OF w line(1)] have fi: "fi < length (changes s)" by simp
    from w fi line(2) have "\<forall>h \<in> set hs. lines h \<noteq> None"
      by (intro filesOk_nth [of "changes s" fi hs]) (simp_all add: wellFormed_def)
    then have ok: "\<forall>x \<in> set (hs[hi := (hs ! hi)
        \<lparr>lines := Some (hl @ [makeLine (hs ! hi) hl l])\<rparr>]). lines x \<noteq> None"
      using set_update_subset_insert [of hs hi] by fastforce
    let ?f = "(changes s ! fi)\<lparr>hunks := Some (hs[hi := (hs ! hi)
        \<lparr>lines := Some (hl @ [makeLine (hs ! hi) hl l])\<rparr>])\<rparr>"
    have "wellFormed (setFile s fi ?f)"
      using wf_setFile [OF w fi line(2), of ?f] ok by simp
    with line(5) show ?thesis by simp
  qed
qed

lemma run_wf:
  "wellFormed s \<Longrightarrow> \<exists>s'. run s ls = Inr s' \<and> wellFormed s'"
proof (induction ls arbitrary: s)
  case Nil
  then show ?case by simp
next
  case (Cons l ls)
  from step_wf [OF Cons.prems, of l] obtain s1 where "step s l = Inr s1" "wellFormed s1"
    by blast
  with Cons.IH [of s1] show ?case by simp
qed

text \<open>An invariant of the loop: it holds at the end when every turn on a line of the
  text keeps it.\<close>

lemma run_invariant:
  assumes "\<And>s l s'. l \<in> set ls \<Longrightarrow> wellFormed s \<Longrightarrow> I s \<Longrightarrow> step s l = Inr s' \<Longrightarrow> I s'"
    and "wellFormed s" and "I s" and "run s ls = Inr s'"
  shows "I s'"
  using assms
proof (induction ls arbitrary: s)
  case Nil
  then show ?case by simp
next
  case (Cons l ls)
  from step_wf [OF Cons.prems(2), of l] obtain s1 where s1: "step s l = Inr s1" "wellFormed s1"
    by blast
  have i1: "I s1" using Cons.prems(1) [of l s s1] Cons.prems(2,3) s1 by simp
  have r1: "run s1 ls = Inr s'" using Cons.prems(4) s1 by simp
  have pres: "\<And>k t t'. k \<in> set ls \<Longrightarrow> wellFormed t \<Longrightarrow> I t \<Longrightarrow> step t k = Inr t' \<Longrightarrow> I t'"
    using Cons.prems(1) by (meson list.set_intros(2))
  show ?case by (rule Cons.IH [OF pres s1(2) i1 r1])
qed

lemma parseDiff_run:
  "\<exists>s. run initState (inputLines diffText) = Inr s \<and> wellFormed s
     \<and> parseDiffTry diffText = Inr (changes s) \<and> parseDiff diffText = changes s"
  using run_wf [OF wf_initState, of "inputLines diffText"]
  by (auto simp: parseDiff_def parseDiffTry_def inputLines_def)

lemma allHunks_update:
  assumes "allHunks P cs" and "\<forall>h \<in> set (orEmpty (hunks f')). P h"
  shows "allHunks P (cs[i := f'])"
  unfolding allHunks_def
proof
  fix f assume "f \<in> set (cs[i := f'])"
  then have "f = f' \<or> f \<in> set cs"
    using set_update_subset_insert [of cs i f'] by auto
  with assms show "\<forall>h \<in> set (orEmpty (hunks f)). P h" by (auto simp: allHunks_def)
qed

lemma allHunks_nth:
  "allHunks P cs \<Longrightarrow> i < length cs \<Longrightarrow> \<forall>h \<in> set (orEmpty (hunks (cs ! i))). P h"
  using nth_mem [of i cs] by (auto simp: allHunks_def)

text \<open>A property of hunks that holds of a hunk without lines and is kept when the
  parser appends a line holds of every hunk in the state after each turn.\<close>

lemma step_allHunks:
  assumes e: "\<And>h. lines h = Some [] \<Longrightarrow> P h"
    and a: "\<And>h hl l. P h \<Longrightarrow> lines h = Some hl \<Longrightarrow>
              P (h\<lparr>lines := Some (hl @ [makeLine h hl l])\<rparr>)"
    and w: "wellFormed s" and I: "allHunks P (changes s)" and st: "step s l = Inr s'"
  shows "allHunks P (changes s')"
proof -
  have same: "allHunks P (changes (setFile s i f'))"
    if "i < length (changes s)" "hunks f' = hunks (changes s ! i)" for i f'
  proof -
    from allHunks_nth [OF I that(1)] that(2) have "\<forall>h \<in> set (orEmpty (hunks f')). P h"
      by simp
    from allHunks_update [OF I this] show ?thesis by (simp add: setFile_def)
  qed
  from step_effect [OF w, of l] consider
      (same) "step s l = Inr s"
    | (push) m1 m2 where "step s l = Inr (s\<lparr>changes := changes s @ [newFile m1 m2],
                               currentFile := Some (length (changes s))\<rparr>)"
    | (flag) i g where "currentFile s = Some i"
        "\<forall>f. hunks (g f) = hunks f \<and> filePath (g f) = filePath f"
        "step s l = Inr (setFile s i (g (changes s ! i)))"
    | (path) i m where "currentFile s = Some i"
        "step s l = Inr (setFile s i ((changes s ! i)\<lparr>filePath := trim m\<rparr>))"
    | (hunk) i hs h where "currentFile s = Some i" "hunks (changes s ! i) = Some hs"
        "lines h = Some []"
        "step s l = Inr ((setFile s i ((changes s ! i)\<lparr>hunks := Some (hs @ [h])\<rparr>))
                               \<lparr>currentHunk := Some (i, length hs)\<rparr>)"
    | (line) fi hi hs hl where "currentHunk s = Some (fi, hi)"
        "hunks (changes s ! fi) = Some hs" "hi < length hs" "lines (hs ! hi) = Some hl"
        "step s l = Inr (setFile s fi ((changes s ! fi)
               \<lparr>hunks := Some (hs[hi := (hs ! hi)
                  \<lparr>lines := Some (hl @ [makeLine (hs ! hi) hl l])\<rparr>])\<rparr>))"
    by blast
  then show ?thesis
  proof cases
    case same
    with st I show ?thesis by simp
  next
    case push
    with st have "changes s' = changes s @ [newFile m1 m2]" by auto
    with I show ?thesis by (auto simp: allHunks_def newFile_def)
  next
    case flag
    from wf_currentFile [OF w flag(1)] have "i < length (changes s)" .
    from same [OF this, of "g (changes s ! i)"] flag(2,3) st show ?thesis by auto
  next
    case path
    from wf_currentFile [OF w path(1)] have "i < length (changes s)" .
    from same [OF this, of "(changes s ! i)\<lparr>filePath := trim m\<rparr>"] path(2) st
    show ?thesis by auto
  next
    case hunk
    from wf_currentFile [OF w hunk(1)] have i: "i < length (changes s)" .
    from allHunks_nth [OF I i] hunk(2) have "\<forall>x \<in> set hs. P x" by simp
    with e [OF hunk(3)] have "\<forall>x \<in> set (hs @ [h]). P x" by auto
    then have "\<forall>x \<in> set (orEmpty (hunks ((changes s ! i)\<lparr>hunks := Some (hs @ [h])\<rparr>))). P x"
      by simp
    from allHunks_update [OF I this, of i] hunk(4) st show ?thesis
      by (auto simp: setFile_def)
  next
    case line
    from wf_currentHunk [OF w line(1)] have fi: "fi < length (changes s)" by simp
    from allHunks_nth [OF I fi] line(2) have all: "\<forall>x \<in> set hs. P x" by simp
    with line(3) have "P (hs ! hi)" by simp
    from a [OF this line(4), of l]
    have new: "P ((hs ! hi)\<lparr>lines := Some (hl @ [makeLine (hs ! hi) hl l])\<rparr>)" .
    have "\<forall>x \<in> set (hs[hi := (hs ! hi)\<lparr>lines := Some (hl @ [makeLine (hs ! hi) hl l])\<rparr>]). P x"
    proof
      fix x assume "x \<in> set (hs[hi := (hs ! hi)\<lparr>lines := Some (hl @ [makeLine (hs ! hi) hl l])\<rparr>])"
      then have "x = (hs ! hi)\<lparr>lines := Some (hl @ [makeLine (hs ! hi) hl l])\<rparr> \<or> x \<in> set hs"
        using set_update_subset_insert [of hs hi] by auto
      with new all show "P x" by auto
    qed
    then have "\<forall>x \<in> set (orEmpty (hunks ((changes s ! fi)
        \<lparr>hunks := Some (hs[hi := (hs ! hi)\<lparr>lines := Some (hl @ [makeLine (hs ! hi) hl l])\<rparr>])\<rparr>))).
        P x" by simp
    from allHunks_update [OF I this, of fi] line(5) st show ?thesis
      by (auto simp: setFile_def)
  qed
qed

lemma parse_allHunks:
  assumes e: "\<And>h. lines h = Some [] \<Longrightarrow> P h"
    and a: "\<And>h hl l. P h \<Longrightarrow> lines h = Some hl \<Longrightarrow>
              P (h\<lparr>lines := Some (hl @ [makeLine h hl l])\<rparr>)"
  shows "allHunks P (parseDiff diffText)"
proof -
  from parseDiff_run [of diffText] obtain s where
    s: "run initState (inputLines diffText) = Inr s" "parseDiff diffText = changes s" by blast
  have "allHunks P (changes s)"
  proof (rule run_invariant [where I = "\<lambda>s. allHunks P (changes s)", OF _ wf_initState _ s(1)])
    show "allHunks P (changes initState)" by (simp add: allHunks_def initState_def)
  next
    fix t l t' assume "l \<in> set (inputLines diffText)" and w: "wellFormed t"
      and i: "allHunks P (changes t)" and st: "step t l = Inr t'"
    show "allHunks P (changes t')" by (rule step_allHunks [where P = P, OF e a w i st])
  qed
  with s(2) show ?thesis by simp
qed

lemma countLines_eq:
  "countLines ls (a, b) =
     (a + int (length (filter oldSide ls)), b + int (length (filter newSide ls)))"
  by (induction ls arbitrary: a b) (auto simp: oldSide_def newSide_def)

lemma toDouble_exact: "\<bar>x\<bar> \<le> 2 ^ 53 \<Longrightarrow> toDouble x = x"
  by (auto simp: toDouble_def roundInt_def)

lemma makeLine_numbers:
  "oldLineNumber (makeLine h hl l) =
     (if oldSide (makeLine h hl l)
      then Some (toDouble (oldStart h + int (length (filter oldSide hl)))) else None)
   \<and> newLineNumber (makeLine h hl l) =
     (if newSide (makeLine h hl l)
      then Some (toDouble (newStart h + int (length (filter newSide hl)))) else None)"
  by (simp add: makeLine_def countLines_eq oldSide_def newSide_def Let_def)

lemma lineNumberedDouble_iff:
  "lineNumberedDouble h k =
     (let ls = orEmpty (lines h); l = ls ! k in
      oldLineNumber l =
        (if oldSide l then Some (toDouble (oldStart h + countPrior oldSide ls k)) else None)
      \<and> newLineNumber l =
        (if newSide l then Some (toDouble (newStart h + countPrior newSide ls k)) else None))"
  by (auto simp: lineNumberedDouble_def Let_def toDouble_exact)

lemma numbered_empty:
  "lines h = Some [] \<Longrightarrow> \<forall>k < length (orEmpty (lines h)). lineNumberedDouble h k"
  by simp

lemma numbered_append:
  assumes P: "\<forall>k < length (orEmpty (lines h)). lineNumberedDouble h k"
    and hl: "lines h = Some hl"
  shows "\<forall>k < length (orEmpty (lines (h\<lparr>lines := Some (hl @ [makeLine h hl l])\<rparr>))).
           lineNumberedDouble (h\<lparr>lines := Some (hl @ [makeLine h hl l])\<rparr>) k"
proof (intro allI impI)
  fix k assume "k < length (orEmpty (lines (h\<lparr>lines := Some (hl @ [makeLine h hl l])\<rparr>)))"
  then have k: "k \<le> length hl" by simp
  show "lineNumberedDouble (h\<lparr>lines := Some (hl @ [makeLine h hl l])\<rparr>) k"
  proof (cases "k < length hl")
    case True
    with P hl have "lineNumberedDouble h k" by simp
    with True hl show ?thesis
      by (simp add: lineNumberedDouble_iff Let_def countPrior_def nth_append)
  next
    case False
    with k have "k = length hl" by simp
    then show ?thesis
      using makeLine_numbers [of h hl l]
      by (simp add: lineNumberedDouble_iff Let_def countPrior_def)
  qed
qed

text \<open>
  Claim C1, as the code has it. In every hunk of every file that \<open>parseDiff\<close> returns, a
  line has an \<open>oldLineNumber\<close> exactly when it is a context or removed line and a
  \<open>newLineNumber\<close> exactly when it is a context or added line; the old number is the
  double nearest to \<open>oldStart +\<close> the number of earlier context and removed lines of the
  hunk, and the new number the double nearest to \<open>newStart +\<close> the number of earlier
  context and added lines. Each number is that sum itself whenever the sum is at most
  \<open>2^53\<close>, the range in which the code's additions are exact.
\<close>

theorem parse_line_numbers:
  assumes "f \<in> set (parseDiff diffText)" and "h \<in> set (orEmpty (hunks f))"
    and "k < length (orEmpty (lines h))"
  shows "lineNumberedDouble h k"
proof -
  have "allHunks (\<lambda>h. \<forall>k < length (orEmpty (lines h)). lineNumberedDouble h k)
      (parseDiff diffText)"
    by (rule parse_allHunks) (fact numbered_empty, fact numbered_append)
  with assms show ?thesis by (simp add: allHunks_def)
qed

text \<open>The theorem at the scenario of the specification, third line of the hunk: the
  added line gets new line number 11 and no old one; the four lines are numbered 9, 10,
  11 and 12 on the new side.\<close>

theorem parse_line_numbers_witness:
  "hd (parseDiff diffScenario) \<in> set (parseDiff diffScenario)
   \<and> hd (orEmpty (hunks (hd (parseDiff diffScenario))))
       \<in> set (orEmpty (hunks (hd (parseDiff diffScenario))))
   \<and> 2 < length (orEmpty (lines (hd (orEmpty (hunks (hd (parseDiff diffScenario)))))))
   \<and> lineNumberedDouble (hd (orEmpty (hunks (hd (parseDiff diffScenario))))) 2
   \<and> lineNumbered (hd (orEmpty (hunks (hd (parseDiff diffScenario))))) 2
   \<and> map newLineNumber (orEmpty (lines (hd (orEmpty (hunks (hd (parseDiff diffScenario)))))))
       = [Some 9, Some 10, Some 11, Some 12]
   \<and> map oldLineNumber (orEmpty (lines (hd (orEmpty (hunks (hd (parseDiff diffScenario)))))))
       = [Some 9, Some 10, None, Some 11]"
proof -
  have f: "hd (parseDiff diffScenario) \<in> set (parseDiff diffScenario)" by code_simp
  have h: "hd (orEmpty (hunks (hd (parseDiff diffScenario))))
      \<in> set (orEmpty (hunks (hd (parseDiff diffScenario))))" by code_simp
  have k: "2 < length (orEmpty (lines (hd (orEmpty (hunks (hd (parseDiff diffScenario)))))))"
    by code_simp
  have e: "lineNumbered (hd (orEmpty (hunks (hd (parseDiff diffScenario))))) 2" by code_simp
  have n: "map newLineNumber (orEmpty (lines (hd (orEmpty (hunks (hd (parseDiff diffScenario)))))))
      = [Some 9, Some 10, Some 11, Some 12]" by code_simp
  have o: "map oldLineNumber (orEmpty (lines (hd (orEmpty (hunks (hd (parseDiff diffScenario)))))))
      = [Some 9, Some 10, None, Some 11]" by code_simp
  from parse_line_numbers [OF f h k] f h k e n o show ?thesis by blast
qed

text \<open>
  Claim C1 as stated fails beyond \<open>2^53\<close>. The hunk below starts at new line
  9007199254740992, which is \<open>2^53\<close>. Its second context line should get
  \<open>newStart + 1\<close>; the double nearest to that sum is \<open>2^53\<close> again, and both lines get
  the same new line number. On the old side, where the hunk starts at 1, the numbers are
  1 and 2.
\<close>

theorem parse_line_numbers_counterexample:
  "map newStart (linesHunks ''diff --git a/f b/f\<newline>@@ -1 +9007199254740992,3 @@\<newline> a\<newline> b'')
     = [9007199254740992]
   \<and> map (\<lambda>h. map newLineNumber (orEmpty (lines h)))
         (linesHunks ''diff --git a/f b/f\<newline>@@ -1 +9007199254740992,3 @@\<newline> a\<newline> b'')
     = [ [Some 9007199254740992, Some 9007199254740992] ]
   \<and> map (\<lambda>h. lineNumbered h 1)
         (linesHunks ''diff --git a/f b/f\<newline>@@ -1 +9007199254740992,3 @@\<newline> a\<newline> b'')
     = [False]
   \<and> map (\<lambda>h. map oldLineNumber (orEmpty (lines h)))
         (linesHunks ''diff --git a/f b/f\<newline>@@ -1 +9007199254740992,3 @@\<newline> a\<newline> b'')
     = [ [Some 1, Some 2] ]"
  by code_simp

lemma length_setFile [simp]: "length (changes (setFile s i f)) = length (changes s)"
  by (simp add: setFile_def)













lemma splitLines_not_Nil: "splitLines s \<noteq> []"
  by (induction s) (auto split: list.splits)

lemma splitLines_chars:
  "l \<in> set (splitLines s) \<Longrightarrow> CHR 0x0A \<notin> set l \<and> set l \<subseteq> set s"
proof (induction s arbitrary: l)
  case Nil
  then show ?case by simp
next
  case (Cons c cs)
  show ?case
  proof (cases "c = CHR 0x0A")
    case True
    with Cons.prems have "l = [] \<or> l \<in> set (splitLines cs)" by simp
    with Cons.IH show ?thesis by auto
  next
    case False
    obtain x xs where x: "splitLines cs = x # xs"
      using splitLines_not_Nil [of cs] by (cases "splitLines cs") auto
    with False Cons.prems have "l = c # x \<or> l \<in> set xs" by simp
    then show ?thesis
    proof
      assume "l = c # x"
      with Cons.IH [of x] x False show ?thesis by auto
    next
      assume "l \<in> set xs"
      with Cons.IH [of l] x show ?thesis by auto
    qed
  qed
qed

lemma inputLines_chars:
  "l \<in> set (inputLines diffText) \<Longrightarrow> CHR 0x0D \<notin> set l \<and> CHR 0x0A \<notin> set l"
  using splitLines_chars [of l "stripCR diffText"] by (auto simp: inputLines_def stripCR_def)

lemma step_unknown: "unknownPrefix l \<Longrightarrow> step s l = Inr s"
  by (simp add: unknownPrefix_def step_def hunkHeaderGuard_def)

lemma step_bad_header:
  "startsWith l ''diff --git'' \<Longrightarrow> matchDiffGit l = None \<Longrightarrow> step s l = Inr s"
  by (simp add: step_def)

lemma step_bad_hunk_header:
  assumes w: "wellFormed s" and a: "startsWith l ''@@''" and n: "matchHunkHeader l = None"
  shows "step s l = Inr s"
proof -
  from startsWith_Cons [OF a] obtain r where r: "l = CHR ''@'' # r" by blast
  then have no: "\<not> startsWith l ''diff --git''" "\<not> startsWith l ''new file mode''"
    "\<not> startsWith l ''deleted file mode''" "\<not> startsWith l ''similarity index''"
    "\<not> startsWith l ''rename from''" "\<not> startsWith l ''rename to''"
    "\<not> matchBinary l" "\<not> startsWith l ''---''" "\<not> startsWith l ''+++''"
    "\<not> startsWith l '' ''" "\<not> startsWith l ''+''" "\<not> startsWith l ''-''"
    by (simp_all add: matchBinary_def)
  have "openHunk s l = Inr s" using n by (simp add: openHunk_def)
  with no hunkHeaderGuard_effect [OF w, of l] show ?thesis
    by (simp add: step_def split: bool.splits)
qed

text \<open>
  Claim C7. For every input string the body of \<open>parseDiff\<close> ends without raising, so
  the \<^verbatim>\<open>catch\<close> branch is never taken and the list built so far is returned. No line
  the loop sees holds a carriage return or a line feed. A line with an unknown prefix, a
  file header or a hunk header that its regular expression does not match leaves the
  state as it is, and the loop goes on.
\<close>

theorem parse_never_raises:
  "(\<exists>cs. parseDiffTry diffText = Inr cs \<and> parseDiff diffText = cs)
   \<and> (\<forall>l \<in> set (inputLines diffText). CHR 0x0D \<notin> set l \<and> CHR 0x0A \<notin> set l)
   \<and> (unknownPrefix l \<longrightarrow> step s l = Inr s)
   \<and> (startsWith l ''diff --git'' \<and> matchDiffGit l = None \<longrightarrow> step s l = Inr s)
   \<and> (wellFormed s \<and> startsWith l ''@@'' \<and> matchHunkHeader l = None \<longrightarrow> step s l = Inr s)"
proof (intro conjI ballI impI)
  show "\<exists>cs. parseDiffTry diffText = Inr cs \<and> parseDiff diffText = cs"
    using parseDiff_run [of diffText] by blast
next
  fix k assume "k \<in> set (inputLines diffText)"
  then show "CHR 0x0D \<notin> set k" "CHR 0x0A \<notin> set k"
    using inputLines_chars [of k diffText] by simp_all
next
  assume "unknownPrefix l"
  then show "step s l = Inr s" by (rule step_unknown)
next
  assume "startsWith l ''diff --git'' \<and> matchDiffGit l = None"
  then show "step s l = Inr s" using step_bad_header [of l s] by simp
next
  assume "wellFormed s \<and> startsWith l ''@@'' \<and> matchHunkHeader l = None"
  then show "step s l = Inr s" using step_bad_hunk_header [of s l] by simp
qed

text \<open>The theorem at the malformed text with CRLF line ends: the file and the well-formed
  hunk are returned with both content lines, and each kind of malformed line is skipped
  in a state that has a current file.\<close>

theorem parse_never_raises_witness:
  "parseDiffTry diffMalformed = Inr (parseDiff diffMalformed)
   \<and> map filePath (parseDiff diffMalformed) = [''f'']
   \<and> map (\<lambda>f. map content (linesOf f)) (parseDiff diffMalformed) = [ [''a'', ''b''] ]
   \<and> step \<lparr>changes = [newFile ''f'' ''f''], currentFile = Some 0, currentHunk = None\<rparr>
        ''index 1234567..abcdefg 100644''
       = Inr \<lparr>changes = [newFile ''f'' ''f''], currentFile = Some 0, currentHunk = None\<rparr>
   \<and> step \<lparr>changes = [newFile ''f'' ''f''], currentFile = Some 0, currentHunk = None\<rparr>
        ''diff --git broken''
       = Inr \<lparr>changes = [newFile ''f'' ''f''], currentFile = Some 0, currentHunk = None\<rparr>
   \<and> step \<lparr>changes = [newFile ''f'' ''f''], currentFile = Some 0, currentHunk = None\<rparr>
        ''@@ -x +y @@''
       = Inr \<lparr>changes = [newFile ''f'' ''f''], currentFile = Some 0, currentHunk = None\<rparr>"
proof -
  let ?s = "\<lparr>changes = [newFile ''f'' ''f''], currentFile = Some 0, currentHunk = None\<rparr>"
  have w: "wellFormed ?s" by (simp add: wellFormed_def filesOk_def newFile_def)
  have u: "unknownPrefix ''index 1234567..abcdefg 100644''" by code_simp
  have b: "startsWith ''diff --git broken'' ''diff --git'' \<and> matchDiffGit ''diff --git broken'' = None"
    by code_simp
  have h: "startsWith ''@@ -x +y @@'' ''@@'' \<and> matchHunkHeader ''@@ -x +y @@'' = None"
    by code_simp
  have p: "map filePath (parseDiff diffMalformed) = [''f'']" by code_simp
  have c: "map (\<lambda>f. map content (linesOf f)) (parseDiff diffMalformed) = [ [''a'', ''b''] ]"
    by code_simp
  from parse_never_raises [of diffMalformed "''index 1234567..abcdefg 100644''" ?s] u
  have 1: "parseDiffTry diffMalformed = Inr (parseDiff diffMalformed)"
    and 2: "step ?s ''index 1234567..abcdefg 100644'' = Inr ?s" by auto
  from parse_never_raises [of diffMalformed "''diff --git broken''" ?s] b
  have 3: "step ?s ''diff --git broken'' = Inr ?s" by blast
  from parse_never_raises [of diffMalformed "''@@ -x +y @@''" ?s] w h
  have 4: "step ?s ''@@ -x +y @@'' = Inr ?s" by blast
  from 1 2 3 4 p c show ?thesis by blast
qed

text \<open>
  Claim C2 says that every line that begins with a space, \<^verbatim>\<open>+\<close> or \<^verbatim>\<open>-\<close> while a hunk
  is open is classified and appended to the current hunk, and that no other branch of the
  parser consumes such a line. The code breaks this. In the text below the hunk removes
  the line \<^verbatim>\<open>-- old note\<close> and adds the line \<^verbatim>\<open>-- new note\<close>. The removed line reads
  \<^verbatim>\<open>--- old note\<close> in the diff: it begins with \<^verbatim>\<open>-\<close> while the hunk is open, and the
  branch for \<^verbatim>\<open>---\<close> lines takes it. The hunk gets two lines instead of three, the
  context line is numbered 1 on the old side instead of 2, and \<open>oldFilePath\<close> becomes
  \<^verbatim>\<open>old note\<close>.
\<close>

theorem parse_removed_line_taken_as_path:
  "parseDiff ''diff --git a/q.sql b/q.sql\<newline>--- a/q.sql\<newline>+++ b/q.sql\<newline>@@ -1,2 +1,2 @@\<newline>--- old note\<newline>+-- new note\<newline> select 1;''
   = [\<lparr>filePath = ''q.sql'', oldFilePath = ''old note'', isDeleted = False, isNew = False,
       isRenamed = False, isBinary = False,
       hunks = Some [\<lparr>oldStart = 1, oldLength = 2, newStart = 1, newLength = 2,
         context_h = [],
         lines = Some [\<lparr>content = ''-- new note'', lineType = Added,
                         oldLineNumber = None, newLineNumber = Some 1\<rparr>,
                       \<lparr>content = ''select 1;'', lineType = Context,
                         oldLineNumber = Some 1, newLineNumber = Some 2\<rparr>]\<rparr>]\<rparr>]"
  by code_simp

section \<open>Properties of extractChangedCodeWithContext\<close>

lemma mem_entriesOf:
  "(e \<in> set (entriesOf ls)) = (\<exists>l \<in> set ls. \<exists>n. newLineNumber l = Some n \<and> e = entryOf l n)"
proof (induction ls)
  case Nil
  show ?case by (simp add: entriesOf_def List.map_filter_simps)
next
  case (Cons l ls)
  have "entriesOf (l # ls) =
      (case newLineNumber l of None \<Rightarrow> entriesOf ls | Some n \<Rightarrow> entryOf l n # entriesOf ls)"
    by (simp add: entriesOf_def List.map_filter_simps split: option.splits)
  with Cons.IH show ?case by (cases "newLineNumber l") auto
qed

lemma scanBack_Some:
  "scanBack es a c = Some cnt \<Longrightarrow>
     \<exists>j. cnt = a + int j \<and> 1 \<le> j \<and> j \<le> length es \<and> (\<forall>x \<in> set (take j es). \<not> isChange x)"
proof (induction es arbitrary: a)
  case Nil
  then show ?case by simp
next
  case (Cons e es)
  from Cons.prems have ne: "\<not> isChange e" by (simp split: if_splits)
  show ?case
  proof (cases "a + 1 \<ge> c")
    case True
    with Cons.prems ne have "cnt = a + 1" by simp
    with ne show ?thesis by (intro exI [of _ 1]) simp
  next
    case False
    with Cons.prems ne have "scanBack es (a + 1) c = Some cnt" by simp
    from Cons.IH [OF this] obtain j where j: "cnt = a + 1 + int j" "1 \<le> j" "j \<le> length es"
      "\<forall>x \<in> set (take j es). \<not> isChange x" by blast
    with ne show ?thesis by (intro exI [of _ "Suc j"]) auto
  qed
qed

text \<open>The entries that the backward loop counted lie behind the first change.\<close>

lemma scanBack_behind:
  assumes s: "scanBack (rev (pre @ e # post)) 0 c = Some cnt" and e: "isChange e"
  shows "1 \<le> cnt \<and> cnt \<le> int (length post)"
proof -
  from scanBack_Some [OF s] obtain j where j: "cnt = int j" "1 \<le> j"
    "\<forall>x \<in> set (take j (rev (pre @ e # post))). \<not> isChange x" by auto
  have "j \<le> length post"
  proof (rule ccontr)
    assume "\<not> j \<le> length post"
    then obtain m where m: "j - length post = Suc m" by (cases "j - length post") auto
    have "take j (rev (pre @ e # post)) = rev post @ take (j - length post) (e # rev pre)"
      using \<open>\<not> j \<le> length post\<close> by simp
    also have "\<dots> = rev post @ e # take m (rev pre)" using m by simp
    finally have "e \<in> set (take j (rev (pre @ e # post)))" by simp
    with j(3) e show False by blast
  qed
  with j show ?thesis by simp
qed

lemma trimBlock_cases:
  "trimBlock b cnt c =
     (if max 0 (int (length (code b)) - cnt + c) < int (length (code b)) then
        (if take (nat (max 0 (int (length (code b)) - cnt + c))) (code b) \<noteq> [] then
           b\<lparr>code := take (nat (max 0 (int (length (code b)) - cnt + c))) (code b),
             endLine := Some (lineNumber (last
               (take (nat (max 0 (int (length (code b)) - cnt + c))) (code b))))\<rparr>
         else b\<lparr>code := take (nat (max 0 (int (length (code b)) - cnt + c))) (code b)\<rparr>)
      else b)"
  unfolding trimBlock_def Let_def by simp

lemma blockOk_trim:
  assumes ok: "blockOk c b" and s: "scanBack (rev (code b)) 0 c = Some cnt"
    and ne: "code (trimBlock b cnt c) \<noteq> []"
  shows "blockOk c (trimBlock b cnt c)"
proof -
  from ok obtain pre e post where d: "code b = pre @ e # post" "isChange e"
    "\<forall>x \<in> set pre. \<not> isChange x" "int (length pre) \<le> max 0 c"
    "startLine b = Some (max 1 (lineNumber e - c))"
    "endLine b = Some (lineNumber (last (code b)))" "hasChanges b"
    unfolding blockOk_def by blast
  from scanBack_behind [of pre e post c cnt] s d(1,2)
  have cnt: "1 \<le> cnt" "cnt \<le> int (length post)" by simp_all
  define k where "k = max 0 (int (length (code b)) - cnt + c)"
  note tc = trimBlock_cases [of b cnt c, folded k_def]
  show ?thesis
  proof (cases "k < int (length (code b))")
    case False
    with tc have "trimBlock b cnt c = b" by simp
    with ok show ?thesis by simp
  next
    case True
    with tc ne have tk: "take (nat k) (code b) \<noteq> []" by (auto split: if_splits)
    with tc True have t: "trimBlock b cnt c =
        b\<lparr>code := take (nat k) (code b),
          endLine := Some (lineNumber (last (take (nat k) (code b))))\<rparr>"
      by simp
    from tk have k1: "1 \<le> k" by (cases "nat k") auto
    have "int (length pre) < k"
    proof (cases "0 \<le> c")
      case True
      with cnt d(1) show ?thesis by (simp add: k_def)
    next
      case False
      with d(4) have "length pre = 0" by simp
      with k1 show ?thesis by simp
    qed
    then have lp: "length pre < nat k" by simp
    then obtain m where m: "nat k - length pre = Suc m" by (cases "nat k - length pre") auto
    have "take (nat k) (code b) = pre @ take (nat k - length pre) (e # post)"
      using d(1) lp by simp
    also have "\<dots> = pre @ e # take m post" using m by simp
    finally have tk': "take (nat k) (code b) = pre @ e # take m post" .
    show ?thesis
      unfolding blockOk_def
    proof (intro exI conjI)
      show "code (trimBlock b cnt c) = pre @ e # take m post" using t tk' by simp
      show "isChange e" by (fact d(2))
      show "\<forall>x \<in> set pre. \<not> isChange x" by (fact d(3))
      show "int (length pre) \<le> max 0 c" by (fact d(4))
      show "startLine (trimBlock b cnt c) = Some (max 1 (lineNumber e - c))"
        using t d(5) by simp
      show "endLine (trimBlock b cnt c) = Some (lineNumber (last (code (trimBlock b cnt c))))"
        using t by simp
      show "hasChanges (trimBlock b cnt c)" using t d(7) by simp
    qed
  qed
qed

lemma set_code_trim: "set (code (trimBlock b cnt c)) \<subseteq> set (code b)"
  unfolding trimBlock_cases [of b cnt c] by (auto dest: in_set_takeD)

lemma startBlock_code:
  "code (currentBlock (startBlock n c st))
     = code (currentBlock st) @ map bufEntry (contextBuffer st)"
proof -
  have "(\<lambda>(x, k). \<lparr>content_e = x, lineNumber = k, isChange = False\<rparr>) = bufEntry"
    by (rule ext) (simp add: bufEntry_def case_prod_unfold)
  then show ?thesis by (simp add: startBlock_def)
qed

lemma blockOk_push:
  assumes "blockOk c b"
  shows "blockOk c (b\<lparr>code := code b @ [x], endLine := Some (lineNumber x)\<rparr>)"
proof -
  from assms obtain pre e post where d: "code b = pre @ e # post" "isChange e"
    "\<forall>x \<in> set pre. \<not> isChange x" "int (length pre) \<le> max 0 c"
    "startLine b = Some (max 1 (lineNumber e - c))" "hasChanges b"
    unfolding blockOk_def by blast
  show ?thesis
    unfolding blockOk_def
  proof (intro exI conjI)
    show "code (b\<lparr>code := code b @ [x], endLine := Some (lineNumber x)\<rparr>) = pre @ e # (post @ [x])"
      using d(1) by simp
  qed (use d in simp_all)
qed

text \<open>One turn of the loop over a hunk's lines keeps the invariant.\<close>

lemma lineStep_inv:
  assumes I: "hunkInv c E acc st"
    and l: "\<forall>n. newLineNumber l = Some n \<longrightarrow> entryOf l n \<in> E"
  shows "hunkInv c E acc (lineStep fp c st l)"
proof (cases "newLineNumber l")
  case None
  with I show ?thesis by (simp add: lineStep_def)
next
  case (Some n)
  with l have xE: "entryOf l n \<in> E" by simp
  from I obtain bs where bs: "codeBlocks st = acc @ bs"
    "\<forall>b \<in> set bs. blockOk c b \<and> set (code b) \<subseteq> E" unfolding hunkInv_def by blast
  from I have buf: "int (length (contextBuffer st)) \<le> max 0 c"
    "bufEntry ` set (contextBuffer st) \<subseteq> E" unfolding hunkInv_def by simp_all
  let ?x = "\<lparr>content_e = stripNewline (content l), lineNumber = n,
     isChange = (lineType l = Added \<or> lineType l = Removed)\<rparr>"
  have x: "?x = entryOf l n" by (simp add: entryOf_def)
  show ?thesis
  proof (cases "inChangeBlock st")
    case True
    with I have cur: "blockOk c (currentBlock st)" "set (code (currentBlock st)) \<subseteq> E"
      unfolding hunkInv_def by simp_all
    let ?b = "(currentBlock st)\<lparr>code := code (currentBlock st) @ [?x], endLine := Some n\<rparr>"
    let ?st2 = "st\<lparr>currentBlock := ?b\<rparr>"
    have b: "blockOk c ?b" using blockOk_push [OF cur(1), of ?x] by simp
    have bE: "set (code ?b) \<subseteq> E" using cur(2) xE x by simp
    have I2: "hunkInv c E acc ?st2"
      unfolding hunkInv_def using bs buf b bE True by simp
    show ?thesis
    proof (cases "lineType l = Context")
      case False
      then have "lineStep fp c st l = ?st2"
        using Some True by (simp add: lineStep_def addLine_def Let_def)
      with I2 show ?thesis by simp
    next
      case Context: True
      then have ls: "lineStep fp c st l = endCheck fp c ?st2"
        using Some True by (simp add: lineStep_def addLine_def Let_def)
      show ?thesis
      proof (cases "scanBack (rev (code ?b)) 0 c")
        case None
        then have "endCheck fp c ?st2 = ?st2" by (simp add: endCheck_def)
        with ls I2 show ?thesis by simp
      next
        case (Some cnt)
        let ?t = "trimBlock ?b cnt c"
        have e: "endCheck fp c ?st2 =
            \<lparr>inChangeBlock = False, currentBlock = emptyBlock fp, contextBuffer = [],
             codeBlocks = (if hasChanges ?t \<and> code ?t \<noteq> [] then codeBlocks st @ [?t]
                           else codeBlocks st)\<rparr>"
          using Some by (simp add: endCheck_def Let_def)
        have tE: "set (code ?t) \<subseteq> E" using set_code_trim [of ?b cnt c] bE by blast
        have tok: "code ?t \<noteq> [] \<Longrightarrow> blockOk c ?t" using blockOk_trim [OF b Some] by simp
        have "\<exists>bs'. (if hasChanges ?t \<and> code ?t \<noteq> [] then codeBlocks st @ [?t]
                           else codeBlocks st) = acc @ bs'
                \<and> (\<forall>b \<in> set bs'. blockOk c b \<and> set (code b) \<subseteq> E)"
        proof (cases "hasChanges ?t \<and> code ?t \<noteq> []")
          case True
          with bs tok tE show ?thesis by (intro exI [of _ "bs @ [?t]"]) auto
        next
          case False
          with bs show ?thesis by (intro exI [of _ bs]) auto
        qed
        then show ?thesis
          unfolding ls e hunkInv_def by (simp add: emptyBlock_def)
      qed
    qed
  next
    case notIn: False
    with I have empty: "code (currentBlock st) = []" unfolding hunkInv_def by simp
    show ?thesis
    proof (cases "lineType l = Context")
      case True
      let ?buf = "contextBuffer st @ [(stripNewline (content l), n)]"
      let ?buf' = "if int (length ?buf) > c then tl ?buf else ?buf"
      have ls: "lineStep fp c st l = st\<lparr>contextBuffer := ?buf'\<rparr>"
        using Some notIn True by (simp add: lineStep_def addLine_def Let_def)
      have "bufEntry (stripNewline (content l), n) = entryOf l n"
        using True by (simp add: bufEntry_def entryOf_def)
      with xE buf(2) have "bufEntry ` set ?buf \<subseteq> E" by auto
      moreover have "set ?buf' \<subseteq> set ?buf" by (auto dest: list.set_sel(2) [rotated])
      ultimately have 1: "bufEntry ` set ?buf' \<subseteq> E" by blast
      have 2: "int (length ?buf') \<le> max 0 c" using buf(1) by auto
      show ?thesis
        unfolding ls hunkInv_def using bs 1 2 notIn empty by simp
    next
      case False
      then have ch: "lineType l = Added \<or> lineType l = Removed" by (cases "lineType l") auto
      let ?pre = "map bufEntry (contextBuffer st)"
      let ?b = "(currentBlock st)\<lparr>startLine := Some (max 1 (n - c)), hasChanges := True,
          code := ?pre @ [?x], endLine := Some n\<rparr>"
      have ls: "lineStep fp c st l =
          st\<lparr>inChangeBlock := True, currentBlock := ?b, contextBuffer := []\<rparr>"
      proof -
        have "code (currentBlock (startBlock n c st)) = ?pre"
          using startBlock_code [of n c st] empty by simp
        moreover have "inChangeBlock (startBlock n c st)" by (simp add: startBlock_def)
        ultimately show ?thesis
          using Some notIn ch False
          by (simp add: lineStep_def addLine_def Let_def) (simp add: startBlock_def)
      qed
      have b: "blockOk c ?b"
        unfolding blockOk_def
      proof (intro exI conjI)
        show "code ?b = ?pre @ ?x # []" by simp
        show "isChange ?x" using ch by simp
        show "\<forall>y \<in> set ?pre. \<not> isChange y" by (auto simp: bufEntry_def)
        show "int (length ?pre) \<le> max 0 c" using buf(1) by simp
      qed simp_all
      have bE: "set (code ?b) \<subseteq> E" using buf(2) xE x by auto
      show ?thesis
        unfolding ls hunkInv_def using bs b bE by simp
    qed
  qed
qed

lemma foldl_lineStep_inv:
  "hunkInv c E acc st \<Longrightarrow> \<forall>l \<in> set ls. \<forall>n. newLineNumber l = Some n \<longrightarrow> entryOf l n \<in> E \<Longrightarrow>
     hunkInv c E acc (foldl (lineStep fp c) st ls)"
proof (induction ls arbitrary: st)
  case Nil
  then show ?case by simp
next
  case (Cons l ls)
  from Cons.prems have "hunkInv c E acc (lineStep fp c st l)"
    by (intro lineStep_inv) simp_all
  with Cons show ?case by simp
qed

text \<open>One hunk adds blocks behind those found before.\<close>

lemma extractHunk_blocks:
  "\<exists>bs. extractHunk fp c acc h = acc @ bs
     \<and> (\<forall>b \<in> set bs. blockOk c b \<and> set (code b) \<subseteq> set (entriesOf (orEmpty (lines h))))"
proof (cases "orEmpty (lines h) = []")
  case True
  then show ?thesis by (simp add: extractHunk_def)
next
  case False
  let ?E = "set (entriesOf (orEmpty (lines h)))"
  let ?init = "\<lparr>inChangeBlock = False, currentBlock = emptyBlock fp,
                     contextBuffer = [], codeBlocks = acc\<rparr>"
  let ?st = "foldl (lineStep fp c) ?init (orEmpty (lines h))"
  have "hunkInv c ?E acc ?init" by (simp add: hunkInv_def emptyBlock_def)
  moreover have "\<forall>l \<in> set (orEmpty (lines h)). \<forall>n. newLineNumber l = Some n
      \<longrightarrow> entryOf l n \<in> ?E" by (auto simp: mem_entriesOf)
  ultimately have I: "hunkInv c ?E acc ?st" by (rule foldl_lineStep_inv)
  then obtain bs where bs: "codeBlocks ?st = acc @ bs"
    "\<forall>b \<in> set bs. blockOk c b \<and> set (code b) \<subseteq> ?E" unfolding hunkInv_def by blast
  show ?thesis
  proof (cases "inChangeBlock ?st \<and> hasChanges (currentBlock ?st) \<and> code (currentBlock ?st) \<noteq> []")
    case True
    with I have "blockOk c (currentBlock ?st)" "set (code (currentBlock ?st)) \<subseteq> ?E"
      unfolding hunkInv_def by simp_all
    with bs True False show ?thesis
      by (intro exI [of _ "bs @ [currentBlock ?st]"]) (auto simp: extractHunk_def Let_def)
  next
    case notLast: False
    with bs False show ?thesis
      by (intro exI [of _ bs]) (auto simp: extractHunk_def Let_def)
  qed
qed

lemma foldl_extractHunk_blocks:
  "\<exists>bs. foldl (extractHunk fp c) acc hs = acc @ bs
     \<and> (\<forall>b \<in> set bs. blockOk c b
          \<and> (\<exists>h \<in> set hs. set (code b) \<subseteq> set (entriesOf (orEmpty (lines h)))))"
proof (induction hs arbitrary: acc)
  case Nil
  show ?case by simp
next
  case (Cons h hs)
  from extractHunk_blocks [of fp c acc h] obtain bs1 where 1: "extractHunk fp c acc h = acc @ bs1"
    "\<forall>b \<in> set bs1. blockOk c b \<and> set (code b) \<subseteq> set (entriesOf (orEmpty (lines h)))"
    by blast
  from Cons.IH [of "acc @ bs1"] obtain bs2 where
    2: "foldl (extractHunk fp c) (acc @ bs1) hs = (acc @ bs1) @ bs2"
    "\<forall>b \<in> set bs2. blockOk c b
          \<and> (\<exists>h \<in> set hs. set (code b) \<subseteq> set (entriesOf (orEmpty (lines h))))"
    by blast
  from 1 2 show ?case by (intro exI [of _ "bs1 @ bs2"]) auto
qed

lemma extractChange_blocks:
  "\<exists>bs. extractChange c acc f = acc @ bs
     \<and> (\<forall>b \<in> set bs. blockOk c b
          \<and> (\<exists>h \<in> set (orEmpty (hunks f)). set (code b) \<subseteq> set (entriesOf (orEmpty (lines h)))))"
  using foldl_extractHunk_blocks [of "filePath f" c acc "orEmpty (hunks f)"]
  by (auto simp: extractChange_def)

lemma foldl_extractChange_blocks:
  "\<exists>bs. foldl (extractChange c) acc cs = acc @ bs
     \<and> (\<forall>b \<in> set bs. blockOk c b
          \<and> (\<exists>f \<in> set cs. \<exists>h \<in> set (orEmpty (hunks f)).
                set (code b) \<subseteq> set (entriesOf (orEmpty (lines h)))))"
proof (induction cs arbitrary: acc)
  case Nil
  show ?case by simp
next
  case (Cons f cs)
  from extractChange_blocks [of c acc f] obtain bs1 where 1: "extractChange c acc f = acc @ bs1"
    "\<forall>b \<in> set bs1. blockOk c b
       \<and> (\<exists>h \<in> set (orEmpty (hunks f)). set (code b) \<subseteq> set (entriesOf (orEmpty (lines h))))"
    by blast
  from Cons.IH [of "acc @ bs1"] obtain bs2 where
    2: "foldl (extractChange c) (acc @ bs1) cs = (acc @ bs1) @ bs2"
    "\<forall>b \<in> set bs2. blockOk c b
          \<and> (\<exists>f \<in> set cs. \<exists>h \<in> set (orEmpty (hunks f)).
                set (code b) \<subseteq> set (entriesOf (orEmpty (lines h))))"
    by blast
  from 1 2 show ?case by (intro exI [of _ "bs1 @ bs2"]) auto
qed

lemma extract_blocks:
  assumes "b \<in> set (extractChangedCodeWithContext cs c)"
  shows "blockOk c b \<and> (\<exists>f \<in> set cs. \<exists>h \<in> set (orEmpty (hunks f)).
                set (code b) \<subseteq> set (entriesOf (orEmpty (lines h))))"
proof -
  from foldl_extractChange_blocks [of c "[]" cs] obtain bs where
    "foldl (extractChange c) [] cs = bs"
    "\<forall>b \<in> set bs. blockOk c b
          \<and> (\<exists>f \<in> set cs. \<exists>h \<in> set (orEmpty (hunks f)).
                set (code b) \<subseteq> set (entriesOf (orEmpty (lines h))))"
    by auto
  with assms show ?thesis by (auto simp: extractChangedCodeWithContext_def split: if_splits)
qed

lemma find_first:
  "\<forall>x \<in> set pre. \<not> P x \<Longrightarrow> P e \<Longrightarrow> List.find P (pre @ e # post) = Some e"
  by (induction pre) auto

lemma blockOk_fields:
  assumes "blockOk c b"
  shows "code b \<noteq> [] \<and> endLine b = Some (lineNumber (last (code b)))
     \<and> (\<exists>e. List.find isChange (code b) = Some e \<and> startLine b = Some (max 1 (lineNumber e - c)))"
proof -
  from assms obtain pre e post where d: "code b = pre @ e # post" "isChange e"
    "\<forall>x \<in> set pre. \<not> isChange x"
    "startLine b = Some (max 1 (lineNumber e - c))"
    "endLine b = Some (lineNumber (last (code b)))"
    unfolding blockOk_def by blast
  from find_first [OF d(3,2), of post] d(1) have "List.find isChange (code b) = Some e" by simp
  with d show ?thesis by auto
qed

lemma mem_linesOf:
  "(l \<in> set (linesOf f)) = (\<exists>h \<in> set (orEmpty (hunks f)). l \<in> set (orEmpty (lines h)))"
  by (auto simp: linesOf_def)

lemma parse_removed_unnumbered:
  assumes "f \<in> set (parseDiff diffText)" and "h \<in> set (orEmpty (hunks f))"
    and "l \<in> set (orEmpty (lines h))" and "lineType l = Removed"
  shows "newLineNumber l = None"
proof -
  have "allHunks (\<lambda>h. \<forall>l \<in> set (orEmpty (lines h)). lineType l = Removed \<longrightarrow> newLineNumber l = None)
      (parseDiff diffText)"
  proof (rule parse_allHunks)
    fix h :: hunk assume "lines h = Some []"
    then show "\<forall>l \<in> set (orEmpty (lines h)). lineType l = Removed \<longrightarrow> newLineNumber l = None"
      by simp
  next
    fix h :: hunk and hl k
    assume "\<forall>l \<in> set (orEmpty (lines h)). lineType l = Removed \<longrightarrow> newLineNumber l = None"
      and "lines h = Some hl"
    then show "\<forall>l \<in> set (orEmpty (lines (h\<lparr>lines := Some (hl @ [makeLine h hl k])\<rparr>))).
        lineType l = Removed \<longrightarrow> newLineNumber l = None"
      by (auto simp: makeLine_def Let_def split: prod.splits)
  qed
  with assms show ?thesis by (simp add: allHunks_def)
qed

text \<open>In a hunk whose numbered lines are all context lines no block is found.\<close>

lemma extractHunk_no_change:
  assumes "\<forall>l \<in> set (orEmpty (lines h)). newLineNumber l \<noteq> None \<longrightarrow> lineType l = Context"
  shows "extractHunk fp c acc h = acc"
proof -
  from extractHunk_blocks [of fp c acc h] obtain bs where bs: "extractHunk fp c acc h = acc @ bs"
    "\<forall>b \<in> set bs. blockOk c b \<and> set (code b) \<subseteq> set (entriesOf (orEmpty (lines h)))"
    by blast
  have "bs = []"
  proof (rule ccontr)
    assume "bs \<noteq> []"
    then obtain b where b: "b \<in> set bs" by (cases bs) auto
    with bs(2) have ok: "blockOk c b" and sub: "set (code b) \<subseteq> set (entriesOf (orEmpty (lines h)))"
      by simp_all
    from ok obtain pre e post where "code b = pre @ e # post" and e2: "isChange e"
      unfolding blockOk_def by blast
    then have e1: "e \<in> set (code b)" by simp
    note e = e1 e2
    with sub have "e \<in> set (entriesOf (orEmpty (lines h)))" by blast
    then obtain l n where l: "l \<in> set (orEmpty (lines h))" "newLineNumber l = Some n"
      "e = entryOf l n" unfolding mem_entriesOf by blast
    with assms have "lineType l = Context" by simp
    with l(3) e(2) show False by (simp add: entryOf_def)
  qed
  with bs(1) show ?thesis by simp
qed

text \<open>
  Claim C9. For the file changes that \<open>parseDiff\<close> returns: every block of the extractor
  is taken from one hunk of one file; each of its entries is the entry made of a line of
  that hunk which is not a removed line, with the line's new-file line number, its content
  and its change flag; the first changed entry of the block, the one that started it, is
  the entry made of an added line of that hunk; a removed line has no new-file line
  number; and a hunk without added lines, whatever its context and removed lines, adds no
  block to the result.
\<close>

theorem extract_started_by_added:
  "(\<forall>b \<in> set (extractChangedCodeWithContext (parseDiff diffText) c).
      \<exists>f \<in> set (parseDiff diffText). \<exists>h \<in> set (orEmpty (hunks f)).
        (\<forall>e \<in> set (code b). \<exists>l \<in> set (orEmpty (lines h)). \<exists>n.
            newLineNumber l = Some n \<and> lineType l \<noteq> Removed \<and> e = entryOf l n)
        \<and> (\<exists>l \<in> set (orEmpty (lines h)). \<exists>n.
            newLineNumber l = Some n \<and> lineType l = Added
            \<and> List.find isChange (code b) = Some (entryOf l n)))
   \<and> (\<forall>f \<in> set (parseDiff diffText). \<forall>l \<in> set (linesOf f).
        lineType l = Removed \<longrightarrow> newLineNumber l = None)
   \<and> (\<forall>f \<in> set (parseDiff diffText). \<forall>h \<in> set (orEmpty (hunks f)).
        (\<forall>l \<in> set (orEmpty (lines h)). lineType l \<noteq> Added)
        \<longrightarrow> extractHunk fp c acc h = acc)"
proof (intro conjI ballI impI)
  fix b assume b: "b \<in> set (extractChangedCodeWithContext (parseDiff diffText) c)"
  from extract_blocks [OF b] obtain f h where ok: "blockOk c b"
    and fh: "f \<in> set (parseDiff diffText)" "h \<in> set (orEmpty (hunks f))"
      "set (code b) \<subseteq> set (entriesOf (orEmpty (lines h)))"
    by blast
  have src: "\<exists>l \<in> set (orEmpty (lines h)). \<exists>n.
      newLineNumber l = Some n \<and> lineType l \<noteq> Removed \<and> e = entryOf l n"
    if e: "e \<in> set (code b)" for e
  proof -
    from e fh(3) have "e \<in> set (entriesOf (orEmpty (lines h)))" by blast
    then obtain l n where l: "l \<in> set (orEmpty (lines h))" "newLineNumber l = Some n"
      "e = entryOf l n" unfolding mem_entriesOf by blast
    have "lineType l \<noteq> Removed"
      using parse_removed_unnumbered [OF fh(1,2) l(1)] l(2) by auto
    with l show ?thesis by blast
  qed
  from ok obtain pre e post where d: "code b = pre @ e # post" "isChange e"
    "\<forall>x \<in> set pre. \<not> isChange x"
    unfolding blockOk_def by blast
  from find_first [OF d(3,2), of post] d(1) have fe: "List.find isChange (code b) = Some e"
    by simp
  from d(1) have "e \<in> set (code b)" by simp
  from src [OF this] obtain l n where l: "l \<in> set (orEmpty (lines h))"
    "newLineNumber l = Some n" "lineType l \<noteq> Removed" "e = entryOf l n" by blast
  from d(2) l(3,4) have "lineType l = Added" by (simp add: entryOf_def)
  with l fe have first: "\<exists>l \<in> set (orEmpty (lines h)). \<exists>n.
      newLineNumber l = Some n \<and> lineType l = Added
      \<and> List.find isChange (code b) = Some (entryOf l n)" by blast
  from src first fh(1,2)
  show "\<exists>f \<in> set (parseDiff diffText). \<exists>h \<in> set (orEmpty (hunks f)).
        (\<forall>e \<in> set (code b). \<exists>l \<in> set (orEmpty (lines h)). \<exists>n.
            newLineNumber l = Some n \<and> lineType l \<noteq> Removed \<and> e = entryOf l n)
        \<and> (\<exists>l \<in> set (orEmpty (lines h)). \<exists>n.
            newLineNumber l = Some n \<and> lineType l = Added
            \<and> List.find isChange (code b) = Some (entryOf l n))"
    by blast
next
  fix f l assume "f \<in> set (parseDiff diffText)" "l \<in> set (linesOf f)" "lineType l = Removed"
  then show "newLineNumber l = None"
    unfolding mem_linesOf using parse_removed_unnumbered [of f diffText _ l] by blast
next
  fix f h assume f: "f \<in> set (parseDiff diffText)" and h: "h \<in> set (orEmpty (hunks f))"
    and na: "\<forall>l \<in> set (orEmpty (lines h)). lineType l \<noteq> Added"
  have "\<forall>l \<in> set (orEmpty (lines h)). newLineNumber l \<noteq> None \<longrightarrow> lineType l = Context"
  proof (intro ballI impI)
    fix l assume l: "l \<in> set (orEmpty (lines h))" "newLineNumber l \<noteq> None"
    with parse_removed_unnumbered [OF f h l(1)] have "lineType l \<noteq> Removed" by auto
    with na l(1) show "lineType l = Context" by (cases "lineType l") auto
  qed
  then show "extractHunk fp c acc h = acc" by (rule extractHunk_no_change)
qed

text \<open>The theorem at the parsed diff whose hunk removes two lines between two context
  lines, and at the scenario of the specification.\<close>

theorem extract_started_by_added_witness:
  "hd (parseDiff diffRemovalsInContext) \<in> set (parseDiff diffRemovalsInContext)
   \<and> hd (orEmpty (hunks (hd (parseDiff diffRemovalsInContext))))
       \<in> set (orEmpty (hunks (hd (parseDiff diffRemovalsInContext))))
   \<and> map lineType (orEmpty (lines (hd (orEmpty (hunks (hd (parseDiff diffRemovalsInContext)))))))
       = [Context, Removed, Removed, Context]
   \<and> extractHunk ''a.js'' 3 [] (hd (orEmpty (hunks (hd (parseDiff diffRemovalsInContext))))) = []
   \<and> extractChangedCodeWithContext (parseDiff diffRemovalsInContext) 3 = []
   \<and> (\<exists>e. List.find isChange (code (hd (extractChangedCodeWithContext (parseDiff diffScenario) 3)))
          = Some e)"
proof -
  let ?f = "hd (parseDiff diffRemovalsInContext)"
  let ?h = "hd (orEmpty (hunks ?f))"
  have f: "?f \<in> set (parseDiff diffRemovalsInContext)" by code_simp
  have h: "?h \<in> set (orEmpty (hunks ?f))" by code_simp
  have t: "map lineType (orEmpty (lines ?h)) = [Context, Removed, Removed, Context]"
    by code_simp
  have na: "\<forall>l \<in> set (orEmpty (lines ?h)). lineType l \<noteq> Added" by code_simp
  have x: "extractChangedCodeWithContext (parseDiff diffRemovalsInContext) 3 = []" by code_simp
  have b: "hd (extractChangedCodeWithContext (parseDiff diffScenario) 3)
      \<in> set (extractChangedCodeWithContext (parseDiff diffScenario) 3)" by code_simp
  from extract_started_by_added [of diffRemovalsInContext 3 "''a.js''" "[]"] f h na
  have 1: "extractHunk ''a.js'' 3 [] ?h = []" by blast
  from extract_started_by_added [of diffScenario 3 "''a.js''" "[]"] b
  have 2: "\<exists>e. List.find isChange (code (hd (extractChangedCodeWithContext (parseDiff diffScenario) 3)))
          = Some e" by blast
  from f h t x 1 2 show ?thesis by blast
qed

text \<open>
  Claim C3 fails in the code for \<open>startLine\<close>. The claim: in every block that the
  extractor returns, \<open>startLine\<close> is the new-file line number of the first retained entry
  and \<open>endLine\<close> that of the last. The code computes \<open>startLine\<close> as the number of the
  line that starts the block minus \<open>contextLines\<close>, as if the context buffer were full,
  and then pushes only the lines that the buffer holds. On the scenario of the
  specification with three context lines the block holds the new-file lines 9 to 12, its
  \<open>endLine\<close> is 12 and its \<open>startLine\<close> is 8; on a hunk with three leading context lines
  and four context lines asked for, the block holds the lines 8 to 14 and its
  \<open>startLine\<close> is 7. In both, \<open>startLine\<close> is the number of no entry of the block.
\<close>

theorem extract_startLine_outside_block:
  "map startLine (extractChangedCodeWithContext (parseDiff diffScenario) 3) = [Some 8]
   \<and> map endLine (extractChangedCodeWithContext (parseDiff diffScenario) 3) = [Some 12]
   \<and> map (\<lambda>b. map lineNumber (code b)) (extractChangedCodeWithContext (parseDiff diffScenario) 3)
       = [ [9, 10, 11, 12] ]
   \<and> map startLine (extractChangedCodeWithContext (parseDiff diffLeadingContext) 4) = [Some 7]
   \<and> map endLine (extractChangedCodeWithContext (parseDiff diffLeadingContext) 4) = [Some 14]
   \<and> map (\<lambda>b. map lineNumber (code b))
         (extractChangedCodeWithContext (parseDiff diffLeadingContext) 4)
       = [ [8, 9, 10, 11, 12, 13, 14] ]"
  by code_simp

end
